theory Spec2Isabelle
  imports Complex_Main
begin

section \<open>Data model\<close>

text \<open>
  A value produced by \<^verbatim>\<open>JSON.parse\<close>. The profiles of the application
  (\<^verbatim>\<open>MergedProfile\<close> in \<^verbatim>\<open>types.ts\<close>) are such values: the code passes what
  \<^verbatim>\<open>JSON.parse\<close> returns to its callbacks and stores it without looking at it, so a
  profile can be any JSON value, \<^verbatim>\<open>null\<close> included. JavaScript numbers are read as
  reals. An object is the list of its properties.
\<close>

datatype json =
    JNull
  | JBool bool
  | JNum real
  | JStr string
  | JArr "json list"
  | JObj "(string \<times> json) list"

text \<open>
  The schemas of \<^verbatim>\<open>types.ts\<close> as the service reference documents them and as
  \<^verbatim>\<open>App.tsx\<close> builds them. An optional field (one that can be absent or
  \<^verbatim>\<open>undefined\<close>) and the nullable \<^verbatim>\<open>phone\<close> are an \<open>option\<close>;
  \<^verbatim>\<open>output\<close> holds a profile or \<^verbatim>\<open>null\<close>, which is \<open>JNull\<close>. The field
  \<^verbatim>\<open>id\<close> of an input and of a history entry is written \<open>item_id\<close> and
  \<open>res_id\<close>, since \<open>id\<close> is the identity function of HOL.
\<close>

record CustomerRecord =
  customer_id :: string
  name :: string
  email :: string
  phone :: "string option"
  current_tier :: string
  last_updated :: string

record InputData =
  item_id :: string
  customerRecord :: CustomerRecord
  chatTranscript :: string
  timestamp :: real

datatype Status = Pending | Processing | Completed | Error

record ModelResolution =
  "output" :: json
  logs :: "string list"
  durationMs :: real
  status :: Status
  thinkingText :: "string option"

record ProcessedResult =
  res_id :: string
  input :: InputData
  flash :: ModelResolution
  pro :: ModelResolution
  consolidated :: "ModelResolution option"
  summary :: "string option"

datatype ProcessingMode = Flash | Pro | Both

text \<open>
  Truthiness, as \<^verbatim>\<open>&&\<close> and \<^verbatim>\<open>||\<close> test it: \<^verbatim>\<open>null\<close>, \<^verbatim>\<open>false\<close>,
  zero and the empty string are falsy; every array and object is truthy.
\<close>

fun truthy :: "json \<Rightarrow> bool" where
  "truthy JNull = False"
| "truthy (JBool b) = b"
| "truthy (JNum x) = (x \<noteq> 0)"
| "truthy (JStr s) = (s \<noteq> [])"
| "truthy (JArr xs) = True"
| "truthy (JObj kvs) = True"

section \<open>The inference gateway (geminiService.ts)\<close>

text \<open>
  What a \<^verbatim>\<open>catch\<close> clause receives: an \<^verbatim>\<open>Error\<close> object with its message, or
  any other thrown value (\<^verbatim>\<open>e instanceof Error\<close> is false).
\<close>

datatype thrown = ErrorObj string | NonError

text \<open>
  The platform functions the code calls: \<^verbatim>\<open>JSON.parse\<close> (\<open>Inl\<close> is the thrown
  value), \<^verbatim>\<open>String.prototype.trim\<close>, the conversion of a number to a string that
  \<^verbatim>\<open>Array.prototype.join\<close> applies, and \<^verbatim>\<open>JSON.stringify(_, null, 2)\<close> on a list
  of history entries.
\<close>

record runtime =
  json_parse :: "string \<Rightarrow> thrown + json"
  trim :: "string \<Rightarrow> string"
  number_to_string :: "real \<Rightarrow> string"
  json_stringify :: "ProcessedResult list \<Rightarrow> string"

text \<open>\<^verbatim>\<open>getClient\<close>: throws when \<^verbatim>\<open>process.env.API_KEY\<close> is missing or empty.\<close>

definition getClient :: "string option \<Rightarrow> thrown + string" where
  "getClient apiKey =
     (case apiKey of
        None \<Rightarrow> Inl (ErrorObj ''API Key not found. Please ensure your environment is configured.'')
      | Some k \<Rightarrow>
          if k = [] then Inl (ErrorObj ''API Key not found. Please ensure your environment is configured.'')
          else Inr k)"

text \<open>
  One remote call that settles, as the service sees it: the configured key, whether
  \<^verbatim>\<open>generateContentStream\<close> (or \<^verbatim>\<open>generateContent\<close>) rejects, the
  \<^verbatim>\<open>chunk.text\<close> of every chunk received (\<open>None\<close> is \<^verbatim>\<open>undefined\<close>), and
  whether the iteration throws after those chunks instead of ending.
\<close>

record remote_stream =
  api_key :: "string option"
  open_fault :: "thrown option"
  chunk_texts :: "string option list"
  stream_fault :: "thrown option"

text \<open>
  The three callbacks a caller passes. A callback returns \<open>None\<close> when it returns
  normally and \<open>Some e\<close> when it throws \<open>e\<close>.
\<close>

record handlers =
  onUpdate :: "string \<Rightarrow> thrown option"
  onComplete :: "json \<Rightarrow> thrown option"
  onError :: "string \<Rightarrow> thrown option"

datatype callback = OnUpdate string | OnComplete json | OnError string

datatype settled = Resolved | Rejected thrown

fun terminal :: "callback \<Rightarrow> bool" where
  "terminal (OnUpdate _) = False"
| "terminal (OnComplete _) = True"
| "terminal (OnError _) = True"

text \<open>\<^verbatim>\<open>s.replace(/pat/g, '')\<close> for a literal pattern: every match, left to right, is dropped.\<close>

fun remove_all :: "string \<Rightarrow> string \<Rightarrow> string" where
  "remove_all pat [] = []"
| "remove_all pat (c # cs) =
     (if pat \<noteq> [] \<and> take (length pat) (c # cs) = pat
      then remove_all pat (drop (length pat) (c # cs))
      else c # remove_all pat cs)"

definition cleaned :: "runtime \<Rightarrow> string \<Rightarrow> string" where
  "cleaned rt fullText =
     trim rt (remove_all [CHR 0x60, CHR 0x60, CHR 0x60]
       (remove_all ([CHR 0x60, CHR 0x60, CHR 0x60] @ ''json'') fullText))"

text \<open>
  The \<^verbatim>\<open>for await\<close> loop: a chunk with a non-empty text extends \<^verbatim>\<open>fullText\<close> and
  reports the cumulative text; the loop stops when the callback throws. The result is the
  callbacks invoked and either the thrown value or the final text.
\<close>

fun consume :: "handlers \<Rightarrow> string \<Rightarrow> string option list \<Rightarrow> callback list \<times> (thrown + string)" where
  "consume hs fullText [] = ([], Inr fullText)"
| "consume hs fullText (c # cs) =
     (case c of
        None \<Rightarrow> consume hs fullText cs
      | Some t \<Rightarrow>
          if t = [] then consume hs fullText cs
          else (case onUpdate hs (fullText @ t) of
                  Some e \<Rightarrow> ([OnUpdate (fullText @ t)], Inl e)
                | None \<Rightarrow>
                    (case consume hs (fullText @ t) cs of
                       (tr, r) \<Rightarrow> (OnUpdate (fullText @ t) # tr, r))))"

text \<open>
  The outer \<^verbatim>\<open>catch\<close>: \<^verbatim>\<open>onError\<close> with the classified message; when that call
  throws, the promise rejects.
\<close>

definition outer_catch :: "string \<Rightarrow> string \<Rightarrow> handlers \<Rightarrow> callback list \<Rightarrow> thrown \<Rightarrow> callback list \<times> settled" where
  "outer_catch prefix other hs tr e =
     (let msg = (case e of ErrorObj m \<Rightarrow> prefix @ m | NonError \<Rightarrow> other)
      in (tr @ [OnError msg],
          case onError hs msg of None \<Rightarrow> Resolved | Some e' \<Rightarrow> Rejected e'))"

text \<open>
  The inner \<^verbatim>\<open>catch\<close> around parsing and \<^verbatim>\<open>onComplete\<close>: \<^verbatim>\<open>onError\<close> with the
  parse message; when that call throws, the outer \<^verbatim>\<open>catch\<close> runs.
\<close>

definition inner_catch :: "string \<Rightarrow> string \<Rightarrow> string \<Rightarrow> handlers \<Rightarrow> callback list \<Rightarrow> thrown \<Rightarrow> callback list \<times> settled" where
  "inner_catch parseMsg prefix other hs tr e =
     (let msg = parseMsg @ (case e of ErrorObj m \<Rightarrow> m | NonError \<Rightarrow> [])
      in (case onError hs msg of
            None \<Rightarrow> (tr @ [OnError msg], Resolved)
          | Some e' \<Rightarrow> outer_catch prefix other hs (tr @ [OnError msg]) e'))"

text \<open>
  The body shared by \<^verbatim>\<open>mergeWithFlash\<close> and \<^verbatim>\<open>mergeWithProStream\<close>, which differ
  in the model they call and in their three messages.
\<close>

definition mergeStream :: "string \<Rightarrow> string \<Rightarrow> string \<Rightarrow> runtime \<Rightarrow> handlers \<Rightarrow> remote_stream \<Rightarrow> callback list \<times> settled" where
  "mergeStream parseMsg prefix other rt hs rs =
     (case getClient (api_key rs) of
        Inl e \<Rightarrow> outer_catch prefix other hs [] e
      | Inr ai \<Rightarrow>
          (case open_fault rs of
             Some e \<Rightarrow> outer_catch prefix other hs [] e
           | None \<Rightarrow>
               (case consume hs [] (chunk_texts rs) of
                  (tr, Inl e) \<Rightarrow> outer_catch prefix other hs tr e
                | (tr, Inr fullText) \<Rightarrow>
                    (case stream_fault rs of
                       Some e \<Rightarrow> outer_catch prefix other hs tr e
                     | None \<Rightarrow>
                         (case json_parse rt (cleaned rt fullText) of
                            Inl e \<Rightarrow> inner_catch parseMsg prefix other hs tr e
                          | Inr json \<Rightarrow>
                              (case onComplete hs json of
                                 None \<Rightarrow> (tr @ [OnComplete json], Resolved)
                               | Some e \<Rightarrow>
                                   inner_catch parseMsg prefix other hs (tr @ [OnComplete json]) e))))))"

definition mergeWithFlash :: "runtime \<Rightarrow> handlers \<Rightarrow> remote_stream \<Rightarrow> callback list \<times> settled" where
  "mergeWithFlash =
     mergeStream ''Parse Error: Output was not valid JSON. '' ''API Error: ''
       ''Unknown network error occurred.''"

definition mergeWithProStream :: "runtime \<Rightarrow> handlers \<Rightarrow> remote_stream \<Rightarrow> callback list \<times> settled" where
  "mergeWithProStream =
     mergeStream ''Structure Error: Deep reasoning failed to produce expected schema. ''
       ''Pro Engine Fault: '' ''An unexpected error occurred in the reasoning phase.''"

text \<open>
  \<^verbatim>\<open>summarizeTranscript\<close>: the argument is what the remote call produced, a thrown value
  or \<^verbatim>\<open>response.text\<close> (\<open>None\<close> is \<^verbatim>\<open>undefined\<close>, on which \<^verbatim>\<open>.trim()\<close> throws).
  Every fault is caught and replaced by the fixed failure string.
\<close>

definition summarizeTranscript :: "runtime \<Rightarrow> string option \<Rightarrow> (thrown + string option) \<Rightarrow> string" where
  "summarizeTranscript rt apiKey response =
     (case getClient apiKey of
        Inl e \<Rightarrow> ''Summary generation failed.''
      | Inr ai \<Rightarrow>
          (case response of
             Inl e \<Rightarrow> ''Summary generation failed.''
           | Inr None \<Rightarrow> ''Summary generation failed.''
           | Inr (Some text) \<Rightarrow>
               if trim rt text = [] then ''No summary available.'' else trim rt text))"

section \<open>Application state and the orchestrator (App.tsx)\<close>

text \<open>
  One invocation of \<^verbatim>\<open>executeItemProcessing\<close> between its suspension points. The
  fields are its arguments and local variables: \<^verbatim>\<open>flashRes\<close> and \<^verbatim>\<open>proRes\<close>
  (declared with the value \<^verbatim>\<open>null\<close>),
  whether \<^verbatim>\<open>flashPromise\<close> and \<^verbatim>\<open>proPromise\<close> have settled, whether the
  promise of \<^verbatim>\<open>summarizeTranscript\<close> is still pending, the readings of
  \<^verbatim>\<open>performance.now()\<close>, and where the invocation stands: before
  \<^verbatim>\<open>await Promise.all\<close> has returned, inside \<^verbatim>\<open>await consolidateResults\<close>, or
  returned. \<open>fromQueue\<close> tells the caller (\<^verbatim>\<open>processNext\<close> or \<^verbatim>\<open>handleRetry\<close>),
  and \<open>synthCalls\<close> counts the calls of \<^verbatim>\<open>consolidateResults\<close> it has issued.
\<close>

datatype phase = AwaitingPaths | AwaitingSynthesis | Returned

record run =
  item :: InputData
  mode :: ProcessingMode
  fromQueue :: bool
  flashRes :: json
  proRes :: json
  flashSettled :: bool
  proSettled :: bool
  summaryPending :: bool
  flashStart :: real
  proStart :: real
  conStart :: real
  phase :: phase
  synthCalls :: nat

text \<open>
  The component's state: the queue (\<^verbatim>\<open>queueRef.current\<close>, mirrored by \<^verbatim>\<open>queue\<close>),
  the history, \<^verbatim>\<open>isProcessing\<close>, \<^verbatim>\<open>selectedMode\<close>, the invocations of the
  orchestrator made so far, the time at which an outstanding
  \<^verbatim>\<open>setTimeout(processNext, 1500)\<close> falls due (\<open>None\<close> when there is none), and
  \<open>drainMode\<close>: the value of \<^verbatim>\<open>selectedMode\<close> in the closure of the running
  \<^verbatim>\<open>processNext\<close>, which is the constant of the render in which
  \<^verbatim>\<open>processQueue\<close> was called.
\<close>

record app =
  queue :: "InputData list"
  history :: "ProcessedResult list"
  isProcessing :: bool
  selectedMode :: ProcessingMode
  drainMode :: ProcessingMode
  timerDue :: "real option"
  runs :: "run list"

text \<open>\<^verbatim>\<open>prev.map(h => h.id === id ? f(h) : h)\<close>\<close>

definition updateRecord :: "string \<Rightarrow> (ProcessedResult \<Rightarrow> ProcessedResult) \<Rightarrow> ProcessedResult list \<Rightarrow> ProcessedResult list" where
  "updateRecord i f prev = map (\<lambda>h. if res_id h = i then f h else h) prev"

definition initialRes :: "Status \<Rightarrow> ModelResolution" where
  "initialRes st = \<lparr>output = JNull, logs = [], durationMs = 0, status = st, thinkingText = Some []\<rparr>"

definition newEntry :: "InputData \<Rightarrow> ProcessingMode \<Rightarrow> ProcessedResult" where
  "newEntry itm m =
     \<lparr>res_id = item_id itm, input = itm,
      flash = initialRes (if m = Pro then Pending else Processing),
      pro = initialRes (if m = Flash then Pending else Processing),
      consolidated = None, summary = None\<rparr>"

text \<open>
  The call of \<^verbatim>\<open>executeItemProcessing\<close> up to \<^verbatim>\<open>await Promise.all\<close>: the summary
  request and the selected paths are started; an unselected path is
  \<^verbatim>\<open>Promise.resolve()\<close>.
\<close>

definition executeItemProcessing :: "real \<Rightarrow> InputData \<Rightarrow> ProcessingMode \<Rightarrow> bool \<Rightarrow> app \<Rightarrow> app" where
  "executeItemProcessing now itm m fromQ s =
     s\<lparr>runs := runs s @
        [\<lparr>item = itm, mode = m, fromQueue = fromQ, flashRes = JNull, proRes = JNull,
          flashSettled = (\<not> (m = Flash \<or> m = Both)),
          proSettled = (\<not> (m = Pro \<or> m = Both)),
          summaryPending = True,
          flashStart = now, proStart = now, conStart = 0,
          phase = AwaitingPaths, synthCalls = 0\<rparr>]\<rparr>"

text \<open>
  What follows \<^verbatim>\<open>await executeItemProcessing\<close> in its caller: \<^verbatim>\<open>processNext\<close>
  schedules itself with \<^verbatim>\<open>setTimeout(processNext, 1500)\<close> when the queue is not empty
  and clears \<^verbatim>\<open>isProcessing\<close> otherwise; \<^verbatim>\<open>handleRetry\<close> does nothing more.
\<close>

definition afterExecute :: "real \<Rightarrow> bool \<Rightarrow> app \<Rightarrow> app" where
  "afterExecute now fromQ s =
     (if fromQ
      then (if queue s \<noteq> [] then s\<lparr>timerDue := Some (now + 1500)\<rparr>
            else s\<lparr>isProcessing := False\<rparr>)
      else s)"

text \<open>
  After \<^verbatim>\<open>await Promise.all\<close>: the consolidation test
  \<^verbatim>\<open>mode === 'Both' && flashRes && proRes\<close>, which tests the truthiness of the two
  variables, the write of the \<^verbatim>\<open>processing\<close> entry and the call of
  \<^verbatim>\<open>consolidateResults\<close>, or the return.
\<close>

definition afterPromiseAll :: "real \<Rightarrow> nat \<Rightarrow> app \<Rightarrow> app" where
  "afterPromiseAll now k s =
     (let r = runs s ! k in
      if mode r = Both \<and> truthy (flashRes r) \<and> truthy (proRes r)
      then s\<lparr>history := updateRecord (item_id (item r))
                 (\<lambda>h. h\<lparr>consolidated := Some \<lparr>output = JNull, logs = [''Initiating synthesis...''],
                                               durationMs = 0, status = Processing,
                                               thinkingText = None\<rparr>\<rparr>)
                 (history s),
             runs := (runs s)[k := r\<lparr>phase := AwaitingSynthesis, conStart := now,
                                     synthCalls := Suc (synthCalls r)\<rparr>]\<rparr>
      else afterExecute now (fromQueue r) (s\<lparr>runs := (runs s)[k := r\<lparr>phase := Returned\<rparr>]\<rparr>))"

text \<open>\<^verbatim>\<open>Promise.all\<close> settles once both path promises have.\<close>

definition pathSettled :: "real \<Rightarrow> nat \<Rightarrow> app \<Rightarrow> app" where
  "pathSettled now k s =
     (if flashSettled (runs s ! k) \<and> proSettled (runs s ! k) then afterPromiseAll now k s else s)"

text \<open>
  The three callbacks passed to \<^verbatim>\<open>mergeWithFlash\<close>; the path's promise settles after
  the terminal one. The completion callback stores the parsed value as it is:
  \<^verbatim>\<open>flashRes = json\<close> and \<^verbatim>\<open>output: json, status: 'completed'\<close>.
\<close>

definition flashCallback :: "real \<Rightarrow> nat \<Rightarrow> callback \<Rightarrow> app \<Rightarrow> app" where
  "flashCallback now k cb s =
     (let r = runs s ! k; i = item_id (item r) in
      case cb of
        OnUpdate t \<Rightarrow>
          s\<lparr>history := updateRecord i
               (\<lambda>h. h\<lparr>flash := (flash h)\<lparr>thinkingText := Some t\<rparr>\<rparr>) (history s)\<rparr>
      | OnComplete json \<Rightarrow>
          pathSettled now k
            (s\<lparr>history := updateRecord i
                 (\<lambda>h. h\<lparr>flash := (flash h)\<lparr>output := json,
                                            durationMs := now - flashStart r,
                                            status := Completed,
                                            logs := [''Flash: Rapid Merge Complete.'']\<rparr>\<rparr>)
                 (history s),
               runs := (runs s)[k := r\<lparr>flashRes := json, flashSettled := True\<rparr>]\<rparr>)
      | OnError err \<Rightarrow>
          pathSettled now k
            (s\<lparr>history := updateRecord i
                 (\<lambda>h. h\<lparr>flash := (flash h)\<lparr>status := Error, logs := [err]\<rparr>\<rparr>) (history s),
               runs := (runs s)[k := r\<lparr>flashSettled := True\<rparr>]\<rparr>))"

text \<open>The three callbacks passed to \<^verbatim>\<open>mergeWithProStream\<close>.\<close>

definition proCallback :: "real \<Rightarrow> nat \<Rightarrow> callback \<Rightarrow> app \<Rightarrow> app" where
  "proCallback now k cb s =
     (let r = runs s ! k; i = item_id (item r) in
      case cb of
        OnUpdate t \<Rightarrow>
          s\<lparr>history := updateRecord i
               (\<lambda>h. h\<lparr>pro := (pro h)\<lparr>thinkingText := Some t\<rparr>\<rparr>) (history s)\<rparr>
      | OnComplete json \<Rightarrow>
          pathSettled now k
            (s\<lparr>history := updateRecord i
                 (\<lambda>h. h\<lparr>pro := (pro h)\<lparr>output := json,
                                        durationMs := now - proStart r,
                                        status := Completed,
                                        logs := [''Pro: Deep reasoning complete.'']\<rparr>\<rparr>)
                 (history s),
               runs := (runs s)[k := r\<lparr>proRes := json, proSettled := True\<rparr>]\<rparr>)
      | OnError err \<Rightarrow>
          pathSettled now k
            (s\<lparr>history := updateRecord i
                 (\<lambda>h. h\<lparr>pro := (pro h)\<lparr>status := Error, logs := [err]\<rparr>\<rparr>) (history s),
               runs := (runs s)[k := r\<lparr>proSettled := True\<rparr>]\<rparr>))"

text \<open>
  \<^verbatim>\<open>await consolidateResults\<close> has settled: with the profile (\<open>Inr\<close>) or by throwing
  (\<open>Inl\<close>, the \<^verbatim>\<open>catch\<close> branch). The invocation then returns.
\<close>

definition consolidateSettled :: "real \<Rightarrow> nat \<Rightarrow> thrown + json \<Rightarrow> app \<Rightarrow> app" where
  "consolidateSettled now k res s =
     (let r = runs s ! k; i = item_id (item r);
          entry = (case res of
                     Inr finalJson \<Rightarrow>
                       \<lparr>output = finalJson,
                        logs = [''Consolidation complete: Golden Record established.''],
                        durationMs = now - conStart r, status = Completed, thinkingText = None\<rparr>
                   | Inl err \<Rightarrow>
                       \<lparr>output = JNull,
                        logs = [''Consolidation Error: '' @
                                 (case err of ErrorObj m \<Rightarrow> m | NonError \<Rightarrow> ''Arbiter failed.'')],
                        durationMs = 0, status = Error, thinkingText = None\<rparr>)
      in afterExecute now (fromQueue r)
           (s\<lparr>history := updateRecord i (\<lambda>h. h\<lparr>consolidated := Some entry\<rparr>) (history s),
              runs := (runs s)[k := r\<lparr>phase := Returned\<rparr>]\<rparr>))"

text \<open>
  The summary request is \<^verbatim>\<open>summarizeTranscript(item.chatTranscript).then(summary => ...)\<close>:
  a reaction to its fulfilment only. When the promise is fulfilled the summary is written;
  when it is rejected nothing of the component runs, and the request is over.
\<close>

definition summaryResolved :: "nat \<Rightarrow> string \<Rightarrow> app \<Rightarrow> app" where
  "summaryResolved k t s =
     (let r = runs s ! k in
      s\<lparr>history := updateRecord (item_id (item r)) (\<lambda>h. h\<lparr>summary := Some t\<rparr>) (history s),
        runs := (runs s)[k := r\<lparr>summaryPending := False\<rparr>]\<rparr>)"

definition summaryRejected :: "nat \<Rightarrow> thrown \<Rightarrow> app \<Rightarrow> app" where
  "summaryRejected k e s = s\<lparr>runs := (runs s)[k := (runs s ! k)\<lparr>summaryPending := False\<rparr>]\<rparr>"

definition handleRetry :: "real \<Rightarrow> string \<Rightarrow> app \<Rightarrow> app" where
  "handleRetry now i s =
     (case find (\<lambda>h. res_id h = i) (history s) of
        None \<Rightarrow> s
      | Some itemEntry \<Rightarrow>
          executeItemProcessing now (input itemEntry) (selectedMode s) False
            (s\<lparr>history := updateRecord i
                 (\<lambda>h. h\<lparr>flash := (if selectedMode s = Flash \<or> selectedMode s = Both
                                   then (flash h)\<lparr>status := Processing, logs := [],
                                                  thinkingText := Some []\<rparr>
                                   else flash h),
                         pro := (if selectedMode s = Pro \<or> selectedMode s = Both
                                 then (pro h)\<lparr>status := Processing, logs := [],
                                              thinkingText := Some []\<rparr>
                                 else pro h),
                         consolidated := None\<rparr>)
                 (history s)\<rparr>))"

definition processNext :: "real \<Rightarrow> app \<Rightarrow> app" where
  "processNext now s =
     (case queue s of
        [] \<Rightarrow> s\<lparr>isProcessing := False\<rparr>
      | itm # rest \<Rightarrow>
          executeItemProcessing now itm (drainMode s) True
            (s\<lparr>queue := rest, history := history s @ [newEntry itm (drainMode s)]\<rparr>))"

definition processQueue :: "real \<Rightarrow> app \<Rightarrow> app" where
  "processQueue now s =
     (if isProcessing s \<or> queue s = [] then s
      else processNext now (s\<lparr>isProcessing := True, drainMode := selectedMode s\<rparr>))"

text \<open>
  What can happen to the component: the user's actions, the timer, and the settlements
  and callbacks of the remote calls of invocation \<open>k\<close>. A callback or settlement is
  taken only while the invocation waits for it; a remote call that never settles
  contributes no event, and its invocation stays where it is. The timer's callback runs
  only once the timer is due: not before 1500 ms have passed since it was set.
\<close>

datatype event =
    AddToQueue "InputData list"
  | ClearQueue
  | ClearHistory
  | SetSelectedMode ProcessingMode
  | ProcessQueue
  | HandleRetry string
  | TimerFired
  | SummaryResolved nat string
  | SummaryRejected nat thrown
  | FlashCallback nat callback
  | ProCallback nat callback
  | ConsolidateSettled nat "thrown + json"

fun step :: "real \<Rightarrow> event \<Rightarrow> app \<Rightarrow> app" where
  "step now (AddToQueue newData) s = s\<lparr>queue := queue s @ newData\<rparr>"
| "step now ClearQueue s = s\<lparr>queue := []\<rparr>"
| "step now ClearHistory s = s\<lparr>history := []\<rparr>"
| "step now (SetSelectedMode m) s = s\<lparr>selectedMode := m\<rparr>"
| "step now ProcessQueue s = processQueue now s"
| "step now (HandleRetry i) s = handleRetry now i s"
| "step now TimerFired s =
     (case timerDue s of
        None \<Rightarrow> s
      | Some due \<Rightarrow> if due \<le> now then processNext now (s\<lparr>timerDue := None\<rparr>) else s)"
| "step now (SummaryResolved k t) s =
     (if k < length (runs s) \<and> summaryPending (runs s ! k) then summaryResolved k t s else s)"
| "step now (SummaryRejected k e) s =
     (if k < length (runs s) \<and> summaryPending (runs s ! k) then summaryRejected k e s else s)"
| "step now (FlashCallback k cb) s =
     (if k < length (runs s) \<and> phase (runs s ! k) = AwaitingPaths \<and> \<not> flashSettled (runs s ! k)
      then flashCallback now k cb s else s)"
| "step now (ProCallback k cb) s =
     (if k < length (runs s) \<and> phase (runs s ! k) = AwaitingPaths \<and> \<not> proSettled (runs s ! k)
      then proCallback now k cb s else s)"
| "step now (ConsolidateSettled k res) s =
     (if k < length (runs s) \<and> phase (runs s ! k) = AwaitingSynthesis
      then consolidateSettled now k res s else s)"

text \<open>A sequence of events, each with the reading of \<^verbatim>\<open>performance.now()\<close> when it occurs.\<close>

fun exec :: "(real \<times> event) list \<Rightarrow> app \<Rightarrow> app" where
  "exec [] s = s"
| "exec (te # es) s = exec es (step (fst te) (snd te) s)"

text \<open>The state after mounting: the loaded queue and mode, nothing processed.\<close>

definition initial :: "InputData list \<Rightarrow> ProcessingMode \<Rightarrow> app" where
  "initial q m =
     \<lparr>queue = q, history = [], isProcessing = False, selectedMode = m, drainMode = m,
      timerDue = None, runs = []\<rparr>"

section \<open>Export (exportData)\<close>

text \<open>
  Reading a property of a parsed value, for the property names the export reads
  (\<^verbatim>\<open>name\<close>, \<^verbatim>\<open>latest_sentiment\<close>, \<^verbatim>\<open>identified_intent\<close>,
  \<^verbatim>\<open>confidence_score\<close>, \<^verbatim>\<open>current_tier\<close>): an object gives the property's value
  or \<^verbatim>\<open>undefined\<close> (\<open>None\<close>) when it has none of that name; a string, number,
  boolean or array has no property of these names; and \<^verbatim>\<open>?.\<close> gives
  \<^verbatim>\<open>undefined\<close> on \<^verbatim>\<open>null\<close>. The keys of a parsed object are distinct.
\<close>

fun property :: "json \<Rightarrow> string \<Rightarrow> json option" where
  "property (JObj kvs) k = map_of kvs k"
| "property v k = None"

text \<open>
  \<^verbatim>\<open>a || b\<close>: the left operand unless it is falsy; \<^verbatim>\<open>undefined\<close> (\<open>None\<close>) is
  falsy.
\<close>

definition or_else :: "json option \<Rightarrow> json \<Rightarrow> json" where
  "or_else a b = (case a of None \<Rightarrow> b | Some v \<Rightarrow> if truthy v then v else b)"

text \<open>\<^verbatim>\<open>Array.prototype.join\<close> on strings.\<close>

fun join :: "string \<Rightarrow> string list \<Rightarrow> string" where
  "join sep [] = []"
| "join sep [x] = x"
| "join sep (x # y # ys) = x @ sep @ join sep (y # ys)"

text \<open>
  The conversion to a string that \<^verbatim>\<open>join\<close> applies to an element: a string is
  itself, a number is converted by the platform, a boolean is its literal, an array is
  its own elements joined with commas (a \<^verbatim>\<open>null\<close> element giving the empty string),
  an object is \<^verbatim>\<open>[object Object]\<close>.
\<close>

fun to_text :: "runtime \<Rightarrow> json \<Rightarrow> string" where
  "to_text rt JNull = ''null''"
| "to_text rt (JBool b) = (if b then ''true'' else ''false'')"
| "to_text rt (JNum x) = number_to_string rt x"
| "to_text rt (JStr s) = s"
| "to_text rt (JArr xs) = join '','' (map (\<lambda>x. if x = JNull then [] else to_text rt x) xs)"
| "to_text rt (JObj kvs) = ''[object Object]''"

definition element_text :: "runtime \<Rightarrow> json \<Rightarrow> string" where
  "element_text rt v = (if v = JNull then [] else to_text rt v)"

definition headers :: "string list" where
  "headers = [''ID'', ''Customer'', ''Sentiment'', ''Intent'', ''Confidence'', ''Tier'']"

text \<open>
  \<^verbatim>\<open>h.consolidated?.output || h.pro.output || h.flash.output\<close>: the first truthy of the
  three, and the last one when none is.
\<close>

definition out :: "ProcessedResult \<Rightarrow> json" where
  "out h =
     or_else (Some (or_else (map_option output (consolidated h)) (output (pro h))))
       (output (flash h))"

text \<open>The six elements of a row's array.\<close>

definition row_values :: "ProcessedResult \<Rightarrow> json list" where
  "row_values h =
     [JStr (res_id h),
      or_else (property (out h) ''name'') (JStr (name (customerRecord (input h)))),
      or_else (property (out h) ''latest_sentiment'') (JStr ''N/A''),
      or_else (property (out h) ''identified_intent'') (JStr ''N/A''),
      or_else (property (out h) ''confidence_score'') (JNum 0),
      or_else (property (out h) ''current_tier'') (JStr ''N/A'')]"

definition csv_row :: "runtime \<Rightarrow> ProcessedResult \<Rightarrow> string" where
  "csv_row rt h = join '','' (map (element_text rt) (row_values h))"

definition csv_content :: "runtime \<Rightarrow> ProcessedResult list \<Rightarrow> string" where
  "csv_content rt dataToExport =
     join [CHR 0x0A] (join '','' headers # map (csv_row rt) dataToExport)"

datatype format = JsonFormat | CsvFormat

text \<open>
  \<^verbatim>\<open>exportData\<close>: nothing is produced for an empty selection; otherwise the content,
  its media type and the file name of the download. An absent or empty
  \<^verbatim>\<open>historyId\<close> selects the whole history.
\<close>

definition selected :: "string option \<Rightarrow> ProcessedResult list \<Rightarrow> ProcessedResult list" where
  "selected historyId hist =
     (case historyId of
        None \<Rightarrow> hist
      | Some i \<Rightarrow> if i = [] then hist else filter (\<lambda>h. res_id h = i) hist)"

definition export_name :: "string option \<Rightarrow> string" where
  "export_name historyId =
     ''resolution_lab_export_'' @
     (case historyId of None \<Rightarrow> ''all'' | Some i \<Rightarrow> if i = [] then ''all'' else i)"

definition exportData :: "runtime \<Rightarrow> format \<Rightarrow> string option \<Rightarrow> ProcessedResult list \<Rightarrow> (string \<times> string \<times> string) option" where
  "exportData rt fmt historyId hist =
     (let dataToExport = selected historyId hist
      in if dataToExport = [] then None
         else (case fmt of
                 JsonFormat \<Rightarrow>
                   Some (json_stringify rt dataToExport, ''application/json'',
                         export_name historyId @ ''.json'')
               | CsvFormat \<Rightarrow>
                   Some (csv_content rt dataToExport, ''text/csv'',
                         export_name historyId @ ''.csv'')))"

text \<open>The comma-separated columns of a line, and the lines of a text.\<close>

fun columns :: "string \<Rightarrow> string list" where
  "columns [] = [[]]"
| "columns (c # cs) =
     (if c = CHR '','' then [] # columns cs
      else (case columns cs of x # xs \<Rightarrow> (c # x) # xs | [] \<Rightarrow> [[c]]))"

fun lines :: "string \<Rightarrow> string list" where
  "lines [] = [[]]"
| "lines (c # cs) =
     (if c = CHR 0x0A then [] # lines cs
      else (case lines cs of x # xs \<Rightarrow> (c # x) # xs | [] \<Rightarrow> [[c]]))"

section \<open>Sample data\<close>

definition sample_profile :: json where
  "sample_profile =
     JObj [(''customer_id'', JStr ''CUST-001''), (''name'', JStr ''Ada King''),
           (''email'', JStr ''ada@newfirm.com''), (''phone'', JStr ''555-0100''),
           (''current_tier'', JStr ''Gold''), (''latest_sentiment'', JStr ''Positive''),
           (''identified_intent'', JStr ''Update email''),
           (''updates_applied'', JArr [JStr ''email'']),
           (''confidence_score'', JNum (9 / 10))]"

definition sample_customer :: CustomerRecord where
  "sample_customer =
     \<lparr>customer_id = ''CUST-001'', name = ''Ada Lovelace'',
      email = ''ada@example.com'', phone = None, current_tier = ''Silver'',
      last_updated = ''2024-01-01''\<rparr>"

definition sample_item :: InputData where
  "sample_item =
     \<lparr>item_id = ''A1'', customerRecord = sample_customer,
      chatTranscript = ''I need to update my email'', timestamp = 1\<rparr>"

definition second_item :: InputData where
  "second_item =
     \<lparr>item_id = ''B2'', customerRecord = sample_customer,
      chatTranscript = ''Please upgrade my plan'', timestamp = 2\<rparr>"

definition third_item :: InputData where
  "third_item =
     \<lparr>item_id = ''C3'', customerRecord = sample_customer,
      chatTranscript = ''Cancel my subscription'', timestamp = 3\<rparr>"

text \<open>
  A platform for the sample runs: \<^verbatim>\<open>JSON.parse\<close> on the two texts the samples use
  (\<^verbatim>\<open>{}\<close> is the empty object and \<^verbatim>\<open>null\<close> is \<^verbatim>\<open>null\<close>) and a syntax error
  on the others, and the conversion of the two numbers the samples use.
\<close>

definition sample_runtime :: runtime where
  "sample_runtime =
     \<lparr>json_parse = (\<lambda>s. if s = ''{}'' then Inr (JObj [])
                          else if s = ''null'' then Inr JNull
                          else Inl (ErrorObj ''Unexpected end of JSON input'')),
      trim = (\<lambda>s. s),
      number_to_string = (\<lambda>x. if x = 0 then ''0'' else ''0.9''),
      json_stringify = (\<lambda>hs. ''[]'')\<rparr>"

definition quiet_handlers :: handlers where
  "quiet_handlers = \<lparr>onUpdate = (\<lambda>t. None), onComplete = (\<lambda>j. None), onError = (\<lambda>m. None)\<rparr>"

definition sample_stream :: remote_stream where
  "sample_stream =
     \<lparr>api_key = Some ''key'', open_fault = None,
      chunk_texts = [Some ''{'', None, Some ''}''], stream_fault = None\<rparr>"

text \<open>A remote call whose whole text is \<^verbatim>\<open>null\<close>.\<close>

definition null_stream :: remote_stream where
  "null_stream =
     \<lparr>api_key = Some ''key'', open_fault = None,
      chunk_texts = [Some ''null''], stream_fault = None\<rparr>"

text \<open>
  History entries for the export: one whose only profile is the fast one, one whose
  consolidated profile has an empty name, one whose profile's name contains a comma.
\<close>

definition fast_only_record :: ProcessedResult where
  "fast_only_record =
     \<lparr>res_id = ''A1'', input = sample_item,
      flash = \<lparr>output = sample_profile, logs = [''Flash: Rapid Merge Complete.''],
               durationMs = 12, status = Completed, thinkingText = Some ''{}''\<rparr>,
      pro = initialRes Pending, consolidated = None, summary = None\<rparr>"

definition blank_name_profile :: json where
  "blank_name_profile =
     JObj [(''customer_id'', JStr ''CUST-001''), (''name'', JStr ''''),
           (''current_tier'', JStr ''Gold''), (''latest_sentiment'', JStr ''Positive''),
           (''identified_intent'', JStr ''Update email''),
           (''confidence_score'', JNum (9 / 10))]"

definition blank_name_record :: ProcessedResult where
  "blank_name_record =
     \<lparr>res_id = ''A1'', input = sample_item,
      flash = initialRes Processing, pro = initialRes Processing,
      consolidated = Some \<lparr>output = blank_name_profile,
                            logs = [''Consolidation complete: Golden Record established.''],
                            durationMs = 30, status = Completed, thinkingText = None\<rparr>,
      summary = None\<rparr>"

definition comma_name_profile :: json where
  "comma_name_profile =
     JObj [(''customer_id'', JStr ''CUST-001''), (''name'', JStr ''King, Ada''),
           (''current_tier'', JStr ''Gold''), (''latest_sentiment'', JStr ''Positive''),
           (''identified_intent'', JStr ''Update email''),
           (''confidence_score'', JNum (9 / 10))]"

definition comma_name_record :: ProcessedResult where
  "comma_name_record =
     \<lparr>res_id = ''A1'', input = sample_item,
      flash = initialRes Pending,
      pro = \<lparr>output = comma_name_profile,
             logs = [''Pro: Deep reasoning complete.''],
             durationMs = 40, status = Completed, thinkingText = Some ''{}''\<rparr>,
      consolidated = None, summary = None\<rparr>"

text \<open>
  The invariant of a path's resolution as the data model words it, and the part of it that
  every operation keeps when the values delivered by the completion callbacks are not
  \<^verbatim>\<open>null\<close>.
\<close>

definition payload_iff_completed :: "ModelResolution \<Rightarrow> bool" where
  "payload_iff_completed r = (output r \<noteq> JNull \<longleftrightarrow> status r = Completed)"

definition completed_has_payload :: "ModelResolution \<Rightarrow> bool" where
  "completed_has_payload r = (status r = Completed \<longrightarrow> output r \<noteq> JNull)"

definition store_ok :: "app \<Rightarrow> bool" where
  "store_ok s =
     (\<forall>h \<in> set (history s). completed_has_payload (flash h) \<and> completed_has_payload (pro h))"

fun nonnull_completion :: "event \<Rightarrow> bool" where
  "nonnull_completion (FlashCallback k (OnComplete j)) = (j \<noteq> JNull)"
| "nonnull_completion (ProCallback k (OnComplete j)) = (j \<noteq> JNull)"
| "nonnull_completion e = True"

text \<open>
  Sample runs: the state after an item is drained in mode Both, its fast path has
  completed and its deep path has failed (the record then offers the retry); an item is
  drained, its summary request is rejected and its fast path then completes.
\<close>

definition before_retry :: app where
  "before_retry =
     exec [(0, ProcessQueue), (5, FlashCallback 0 (OnComplete sample_profile)),
           (7, ProCallback 0 (OnError ''Pro Engine Fault: 503''))]
       (initial [sample_item] Both)"




text \<open>
  Notions for the claims about the scheduler: who called an invocation and with which
  mode; whether an invocation made by \<^verbatim>\<open>processNext\<close> has not returned yet; the
  scheduler's single-flight condition (while \<^verbatim>\<open>isProcessing\<close> is set, either exactly
  one such invocation is in flight and no timer is outstanding, or none is in flight and
  the timer for the next item is outstanding; otherwise neither); the items enqueued by a
  sequence of events.
\<close>

definition caller_mode :: "run \<Rightarrow> bool \<times> ProcessingMode" where
  "caller_mode r = (fromQueue r, mode r)"

definition draining :: "run \<Rightarrow> bool" where
  "draining r = (fromQueue r \<and> phase r \<noteq> Returned)"

definition single_flight :: "app \<Rightarrow> bool" where
  "single_flight s =
     (if isProcessing s
      then (length (filter draining (runs s)) = 1 \<and> timerDue s = None) \<or>
           (filter draining (runs s) = [] \<and> timerDue s \<noteq> None)
      else filter draining (runs s) = [] \<and> timerDue s = None)"

fun enqueued :: "(real \<times> event) list \<Rightarrow> InputData list" where
  "enqueued [] = []"
| "enqueued (te # es) = (case snd te of AddToQueue newData \<Rightarrow> newData | _ \<Rightarrow> []) @ enqueued es"

text \<open>
  The events at which the drain takes the head of the queue: a call of
  \<^verbatim>\<open>processQueue\<close> while no drain is running, and the firing of the inter-item timer
  once it is due.
\<close>

definition takes_head :: "real \<Rightarrow> event \<Rightarrow> app \<Rightarrow> bool" where
  "takes_head now e s =
     (e = ProcessQueue \<and> \<not> isProcessing s \<or>
      e = TimerFired \<and> (case timerDue s of None \<Rightarrow> False | Some due \<Rightarrow> due \<le> now))"

text \<open>
  A drain of two items during which the user switches the mode from Both to Flash: both
  paths of the first item fail, the timer fires, and the second item is taken.
\<close>

definition mode_switch_trace :: "(real \<times> event) list" where
  "mode_switch_trace =
     [(1, SetSelectedMode Flash),
      (2, FlashCallback 0 (OnError ''API Error: 503'')),
      (3, ProCallback 0 (OnError ''Pro Engine Fault: 503'')),
      (1503, TimerFired)]"

text \<open>
  A drain of three items in mode Both, the third enqueued while the first is in flight:
  up to the moment the fast path of the second item has failed, and up to the moment its
  deep path has failed too, when the timer for the third is outstanding.
\<close>

definition fifo_prefix :: "(real \<times> event) list" where
  "fifo_prefix =
     [(0, ProcessQueue), (1, AddToQueue [third_item]),
      (2, FlashCallback 0 (OnError ''API Error: 503'')),
      (3, ProCallback 0 (OnError ''Pro Engine Fault: 503'')),
      (1503, TimerFired),
      (1504, FlashCallback 1 (OnError ''API Error: 503''))]"

definition fifo_trace :: "(real \<times> event) list" where
  "fifo_trace = fifo_prefix @ [(1505, ProCallback 1 (OnError ''Pro Engine Fault: 503''))]"

text \<open>
  The consolidation bookkeeping of one invocation, in terms of its own variables: a result
  variable is still \<^verbatim>\<open>null\<close> until its path has settled; no call of
  \<^verbatim>\<open>consolidateResults\<close> before \<^verbatim>\<open>Promise.all\<close> has returned, and that wait ends as
  soon as both paths have settled; while the call is awaited it is the only one, the mode
  is Both and both results are truthy; after the return both paths have settled and there
  was one call if the mode is Both and both results are truthy, and none otherwise.
\<close>

definition run_ok :: "run \<Rightarrow> bool" where
  "run_ok r =
     ((\<not> flashSettled r \<longrightarrow> flashRes r = JNull) \<and> (\<not> proSettled r \<longrightarrow> proRes r = JNull) \<and>
      (case phase r of
         AwaitingPaths \<Rightarrow> synthCalls r = 0 \<and> \<not> (flashSettled r \<and> proSettled r)
       | AwaitingSynthesis \<Rightarrow>
           synthCalls r = 1 \<and> mode r = Both \<and> truthy (flashRes r) \<and> truthy (proRes r) \<and>
           flashSettled r \<and> proSettled r
       | Returned \<Rightarrow>
           flashSettled r \<and> proSettled r \<and>
           synthCalls r =
             (if mode r = Both \<and> truthy (flashRes r) \<and> truthy (proRes r) then 1 else 0)))"

definition runs_ok :: "app \<Rightarrow> bool" where
  "runs_ok s = (\<forall>j < length (runs s). run_ok (runs s ! j))"

text \<open>
  An item drained in mode Both whose two paths complete with a profile; and an item
  drained in mode Both for which each of the two remote calls streams the text
  \<^verbatim>\<open>null\<close> (the callbacks are those of the gateway on \<open>null_stream\<close>).
\<close>

definition deep_profile :: json where
  "deep_profile =
     JObj [(''customer_id'', JStr ''CUST-001''), (''name'', JStr ''Ada King''),
           (''latest_sentiment'', JStr ''Positive''),
           (''confidence_score'', JNum (9 / 10)), (''reasoning_insight'', JStr ''email'')]"

definition both_complete_trace :: "(real \<times> event) list" where
  "both_complete_trace =
     [(0, ProcessQueue), (5, FlashCallback 0 (OnComplete sample_profile)),
      (9, ProCallback 0 (OnComplete deep_profile))]"

definition null_trace :: "(real \<times> event) list" where
  "null_trace =
     [(0, ProcessQueue),
      (4, FlashCallback 0 (OnUpdate ''null'')), (5, FlashCallback 0 (OnComplete JNull)),
      (8, ProCallback 0 (OnUpdate ''null'')), (9, ProCallback 0 (OnComplete JNull))]"

section \<open>The gateway's terminal callback\<close>

lemma consume_quiet:
  "\<forall>t. onUpdate hs t = None \<Longrightarrow>
     filter terminal (fst (consume hs full cs)) = [] \<and> (\<exists>ft. snd (consume hs full cs) = Inr ft)"
proof (induction cs arbitrary: full)
  case Nil
  then show ?case by simp
next
  case (Cons c cs)
  show ?case
  proof (cases c)
    case None
    then show ?thesis using Cons by simp
  next
    case (Some t)
    then show ?thesis
      using Cons.prems Cons.IH [of full] Cons.IH [of "full @ t"]
      by (auto simp: case_prod_beta)
  qed
qed

lemma mergeStream_once:
  assumes "\<forall>t. onUpdate hs t = None" and "\<forall>j. onComplete hs j = None"
    and "\<forall>m. onError hs m = None"
  shows "length (filter terminal (fst (mergeStream a b c rt hs rs))) = 1 \<and>
         snd (mergeStream a b c rt hs rs) = Resolved"
proof -
  obtain tr r where cons: "consume hs [] (chunk_texts rs) = (tr, r)"
    by (cases "consume hs [] (chunk_texts rs)")
  from consume_quiet [OF assms(1), of "[]" "chunk_texts rs"] cons
  obtain fullText where quiet: "filter terminal tr = []" and res: "r = Inr fullText"
    by auto
  show ?thesis
    using assms(2,3) quiet
    by (simp add: mergeStream_def cons res outer_catch_def inner_catch_def Let_def
          split: sum.splits option.splits thrown.splits)
qed

text \<open>
  C6. When none of the three callbacks throws, every call of \<^verbatim>\<open>mergeWithFlash\<close> and
  every call of \<^verbatim>\<open>mergeWithProStream\<close>, however the remote call settles (missing key,
  rejected request, any chunks, a fault in the stream, unparsable text, a parsed value),
  invokes a terminal callback (\<^verbatim>\<open>onComplete\<close> or \<^verbatim>\<open>onError\<close>) exactly once in
  total, and its promise resolves: it never rejects.
\<close>

theorem terminal_callback_exactly_once:
  assumes "\<forall>t. onUpdate hs t = None" and "\<forall>j. onComplete hs j = None"
    and "\<forall>m. onError hs m = None"
  shows "length (filter terminal (fst (mergeWithFlash rt hs rs))) = 1 \<and>
         snd (mergeWithFlash rt hs rs) = Resolved \<and>
         length (filter terminal (fst (mergeWithProStream rt hs rs))) = 1 \<and>
         snd (mergeWithProStream rt hs rs) = Resolved"
  unfolding mergeWithFlash_def mergeWithProStream_def
  using mergeStream_once [OF assms] by simp

theorem terminal_callback_exactly_once_witness:
  "(\<forall>t. onUpdate quiet_handlers t = None) \<and> (\<forall>j. onComplete quiet_handlers j = None) \<and>
   (\<forall>m. onError quiet_handlers m = None) \<and>
   fst (mergeWithFlash sample_runtime quiet_handlers sample_stream) =
     [OnUpdate ''{'', OnUpdate ''{}'', OnComplete (JObj [])] \<and>
   length (filter terminal (fst (mergeWithFlash sample_runtime quiet_handlers sample_stream))) = 1 \<and>
   snd (mergeWithFlash sample_runtime quiet_handlers sample_stream) = Resolved \<and>
   length (filter terminal (fst (mergeWithProStream sample_runtime quiet_handlers sample_stream))) = 1 \<and>
   snd (mergeWithProStream sample_runtime quiet_handlers sample_stream) = Resolved"
proof -
  have quiet: "\<forall>t. onUpdate quiet_handlers t = None" "\<forall>j. onComplete quiet_handlers j = None"
    "\<forall>m. onError quiet_handlers m = None"
    by (simp_all add: quiet_handlers_def)
  have trace: "fst (mergeWithFlash sample_runtime quiet_handlers sample_stream) =
     [OnUpdate ''{'', OnUpdate ''{}'', OnComplete (JObj [])]"
    by (simp add: mergeWithFlash_def mergeStream_def getClient_def sample_stream_def
        quiet_handlers_def sample_runtime_def cleaned_def)
  show ?thesis
    using terminal_callback_exactly_once [OF quiet, of sample_runtime sample_stream] quiet trace
    by simp
qed

section \<open>CSV export\<close>

lemma columns_length: "length (columns s) = Suc (length (filter (\<lambda>c. c = CHR '','') s))"
  by (induction s) (auto split: list.splits)

lemma lines_single: "CHR 0x0A \<notin> set a \<Longrightarrow> lines a = [a]"
  by (induction a) auto

lemma lines_append: "CHR 0x0A \<notin> set a \<Longrightarrow> lines (a @ CHR 0x0A # b) = a # lines b"
  by (induction a) auto

lemma join_cons: "join sep (x # xs) = x @ concat (map (\<lambda>y. sep @ y) xs)"
  by (induction xs arbitrary: x) auto

lemma lines_rows:
  "\<forall>x \<in> set (x0 # xs). CHR 0x0A \<notin> set x \<Longrightarrow>
     lines (x0 @ concat (map (\<lambda>y. CHR 0x0A # y) xs)) = x0 # xs"
proof (induction xs arbitrary: x0)
  case Nil
  then show ?case by (simp add: lines_single)
next
  case (Cons y ys)
  have "lines (x0 @ CHR 0x0A # (y @ concat (map (\<lambda>y. CHR 0x0A # y) ys))) =
        x0 # lines (y @ concat (map (\<lambda>y. CHR 0x0A # y) ys))"
    using Cons.prems by (intro lines_append) simp
  then show ?case using Cons.IH [of y] Cons.prems by simp
qed

text \<open>
  C10. A data row is the record's six values, each converted to text as \<^verbatim>\<open>join\<close>
  converts it, joined by commas, with nothing quoted or escaped: the id, the effective name
  (the profile's name, else the source record's), the sentiment, the effective intent, the
  confidence and the effective tier. The header row has exactly six comma-separated
  columns; a data row has six columns and one more for every comma inside its values, so
  the row of a record whose effective name, intent or tier contains a comma has more than
  six. The exported CSV text is the header row followed by one line feed and one data row
  for each selected record (when no row contains a line feed, its lines are exactly the
  header and the rows), and it is what \<^verbatim>\<open>exportData\<close> produces, as
  \<^verbatim>\<open>text/csv\<close>, for a selection that is not empty; for an empty selection nothing
  is exported.
\<close>

theorem csv_rows_unescaped:
  "length (row_values h) = 6 \<and>
   csv_row rt h =
     element_text rt (row_values h ! 0) @ '','' @ element_text rt (row_values h ! 1) @ '','' @
     element_text rt (row_values h ! 2) @ '','' @ element_text rt (row_values h ! 3) @ '','' @
     element_text rt (row_values h ! 4) @ '','' @ element_text rt (row_values h ! 5) \<and>
   row_values h ! 1 =
     or_else (property (out h) ''name'') (JStr (name (customerRecord (input h)))) \<and>
   row_values h ! 3 = or_else (property (out h) ''identified_intent'') (JStr ''N/A'') \<and>
   row_values h ! 5 = or_else (property (out h) ''current_tier'') (JStr ''N/A'') \<and>
   join '','' headers = ''ID,Customer,Sentiment,Intent,Confidence,Tier'' \<and>
   length (columns (join '','' headers)) = 6 \<and>
   length (columns (csv_row rt h)) =
     6 + length (filter (\<lambda>c. c = CHR '','') (concat (map (element_text rt) (row_values h)))) \<and>
   (CHR '','' \<in> set (element_text rt (row_values h ! 1)) \<or>
    CHR '','' \<in> set (element_text rt (row_values h ! 3)) \<or>
    CHR '','' \<in> set (element_text rt (row_values h ! 5)) \<longrightarrow>
      6 < length (columns (csv_row rt h))) \<and>
   csv_content rt hs =
     ''ID,Customer,Sentiment,Intent,Confidence,Tier'' @
     concat (map (\<lambda>h. CHR 0x0A # csv_row rt h) hs) \<and>
   ((\<forall>h \<in> set hs. CHR 0x0A \<notin> set (csv_row rt h)) \<longrightarrow>
      lines (csv_content rt hs) = join '','' headers # map (csv_row rt) hs) \<and>
   (selected historyId hist \<noteq> [] \<longrightarrow>
      exportData rt CsvFormat historyId hist =
        Some (csv_content rt (selected historyId hist), ''text/csv'',
              export_name historyId @ ''.csv'')) \<and>
   (selected historyId hist = [] \<longrightarrow> exportData rt CsvFormat historyId hist = None)"
proof -
  have len: "length (row_values h) = 6" by (simp add: row_values_def)
  have row: "csv_row rt h =
     element_text rt (row_values h ! 0) @ '','' @ element_text rt (row_values h ! 1) @ '','' @
     element_text rt (row_values h ! 2) @ '','' @ element_text rt (row_values h ! 3) @ '','' @
     element_text rt (row_values h ! 4) @ '','' @ element_text rt (row_values h ! 5)"
    by (simp add: csv_row_def row_values_def)
  have cells: "row_values h ! 1 =
       or_else (property (out h) ''name'') (JStr (name (customerRecord (input h))))"
    "row_values h ! 3 = or_else (property (out h) ''identified_intent'') (JStr ''N/A'')"
    "row_values h ! 5 = or_else (property (out h) ''current_tier'') (JStr ''N/A'')"
    by (simp_all add: row_values_def)
  have header: "join '','' headers = ''ID,Customer,Sentiment,Intent,Confidence,Tier''"
    by (simp add: headers_def)
  have six: "length (columns (join '','' headers)) = 6"
    by (simp add: header)
  have count: "length (columns (csv_row rt h)) =
     6 + length (filter (\<lambda>c. c = CHR '','') (concat (map (element_text rt) (row_values h))))"
    by (simp add: columns_length csv_row_def row_values_def)
  have pos: "0 < length (filter (\<lambda>c. c = CHR '','') v)" if "CHR '','' \<in> set v" for v
    using that by (induction v) auto
  have wide: "6 < length (columns (csv_row rt h))"
    if "CHR '','' \<in> set (element_text rt (row_values h ! 1)) \<or>
        CHR '','' \<in> set (element_text rt (row_values h ! 3)) \<or>
        CHR '','' \<in> set (element_text rt (row_values h ! 5))"
    using that pos [of "element_text rt (row_values h ! 1)"]
      pos [of "element_text rt (row_values h ! 3)"]
      pos [of "element_text rt (row_values h ! 5)"]
    by (auto simp: columns_length row)
  have content: "csv_content rt hs =
     ''ID,Customer,Sentiment,Intent,Confidence,Tier'' @
     concat (map (\<lambda>h. CHR 0x0A # csv_row rt h) hs)"
    unfolding csv_content_def join_cons header by (simp add: comp_def)
  have rows: "lines (csv_content rt hs) = join '','' headers # map (csv_row rt) hs"
    if "\<forall>h \<in> set hs. CHR 0x0A \<notin> set (csv_row rt h)"
  proof -
    have "\<forall>x \<in> set (join '','' headers # map (csv_row rt) hs). CHR 0x0A \<notin> set x"
      using that by (simp add: header)
    from lines_rows [OF this] show ?thesis
      unfolding content header by (simp add: comp_def)
  qed
  have export: "exportData rt CsvFormat historyId hist =
        Some (csv_content rt (selected historyId hist), ''text/csv'',
              export_name historyId @ ''.csv'')" if "selected historyId hist \<noteq> []"
    using that by (simp add: exportData_def Let_def)
  have empty_sel: "exportData rt CsvFormat historyId hist = None" if "selected historyId hist = []"
    using that by (simp add: exportData_def Let_def)
  from wide have w:
    "CHR '','' \<in> set (element_text rt (row_values h ! 1)) \<or>
     CHR '','' \<in> set (element_text rt (row_values h ! 3)) \<or>
     CHR '','' \<in> set (element_text rt (row_values h ! 5)) \<longrightarrow>
       6 < length (columns (csv_row rt h))"
    by (rule impI)
  from rows have r: "(\<forall>h \<in> set hs. CHR 0x0A \<notin> set (csv_row rt h)) \<longrightarrow>
      lines (csv_content rt hs) = join '','' headers # map (csv_row rt) hs"
    by (rule impI)
  from export have e: "selected historyId hist \<noteq> [] \<longrightarrow>
      exportData rt CsvFormat historyId hist =
        Some (csv_content rt (selected historyId hist), ''text/csv'',
              export_name historyId @ ''.csv'')"
    by (rule impI)
  from empty_sel have n:
    "selected historyId hist = [] \<longrightarrow> exportData rt CsvFormat historyId hist = None"
    by blast
  show ?thesis
    by (intro conjI len row cells header six count w content r e n)
qed

theorem csv_rows_unescaped_witness:
  "CHR '','' \<in> set (element_text sample_runtime (row_values comma_name_record ! 1)) \<and>
   csv_row sample_runtime comma_name_record = ''A1,King, Ada,Positive,Update email,0.9,Gold'' \<and>
   columns (csv_row sample_runtime comma_name_record) =
     [''A1'', ''King'', '' Ada'', ''Positive'', ''Update email'', ''0.9'', ''Gold''] \<and>
   6 < length (columns (csv_row sample_runtime comma_name_record)) \<and>
   length (columns (join '','' headers)) = 6 \<and>
   selected None [comma_name_record] \<noteq> [] \<and>
   exportData sample_runtime CsvFormat None [comma_name_record] =
     Some (''ID,Customer,Sentiment,Intent,Confidence,Tier'' @ [CHR 0x0A] @
           ''A1,King, Ada,Positive,Update email,0.9,Gold'',
           ''text/csv'', ''resolution_lab_export_all.csv'') \<and>
   lines (csv_content sample_runtime [comma_name_record]) =
     [''ID,Customer,Sentiment,Intent,Confidence,Tier'',
      ''A1,King, Ada,Positive,Update email,0.9,Gold'']"
proof -
  have cell: "element_text sample_runtime (row_values comma_name_record ! 1) = ''King, Ada''"
    by (simp add: row_values_def out_def or_else_def element_text_def comma_name_record_def
        comma_name_profile_def initialRes_def)
  have row: "csv_row sample_runtime comma_name_record =
      ''A1,King, Ada,Positive,Update email,0.9,Gold''"
    by (simp add: csv_row_def row_values_def out_def or_else_def element_text_def
        comma_name_record_def comma_name_profile_def initialRes_def sample_runtime_def)
  have cols: "columns ''A1,King, Ada,Positive,Update email,0.9,Gold'' =
      [''A1'', ''King'', '' Ada'', ''Positive'', ''Update email'', ''0.9'', ''Gold'']"
    by simp
  have comma: "CHR '','' \<in> set (element_text sample_runtime (row_values comma_name_record ! 1))"
    using cell by simp
  have sel: "selected None [comma_name_record] = [comma_name_record]"
    by (simp add: selected_def)
  have nonl: "\<forall>h \<in> set [comma_name_record]. CHR 0x0A \<notin> set (csv_row sample_runtime h)"
    by (simp add: row)
  note main = csv_rows_unescaped
    [of comma_name_record sample_runtime "[comma_name_record]" None "[comma_name_record]"]
  have a: "6 < length (columns (csv_row sample_runtime comma_name_record))"
    using main comma by blast
  have b: "length (columns (join '','' headers)) = 6"
    using main by blast
  have c: "exportData sample_runtime CsvFormat None [comma_name_record] =
     Some (csv_content sample_runtime (selected None [comma_name_record]), ''text/csv'',
           export_name None @ ''.csv'')"
    using main sel by simp
  have d: "csv_content sample_runtime [comma_name_record] =
     ''ID,Customer,Sentiment,Intent,Confidence,Tier'' @
     concat (map (\<lambda>h. CHR 0x0A # csv_row sample_runtime h) [comma_name_record])"
    using main by blast
  have e: "lines (csv_content sample_runtime [comma_name_record]) =
     join '','' headers # map (csv_row sample_runtime) [comma_name_record]"
    using main nonl by blast
  have f: "join '','' headers = ''ID,Customer,Sentiment,Intent,Confidence,Tier''"
    using main by blast
  show ?thesis
    using comma a b row cols
    by (simp add: c d e f sel export_name_def)
qed

text \<open>
  C7, as the claim states it, fails: the consolidated profile is present but its name is
  the empty string, and the Customer field of the row is then the source record's name,
  not the consolidated profile's.
\<close>

theorem csv_profile_source_counterexample:
  "map_option output (consolidated blank_name_record) = Some blank_name_profile \<and>
   truthy blank_name_profile \<and>
   out blank_name_record = blank_name_profile \<and>
   property blank_name_profile ''name'' = Some (JStr []) \<and>
   row_values blank_name_record ! 1 = JStr ''Ada Lovelace'' \<and>
   row_values blank_name_record ! 1 \<noteq> JStr [] \<and>
   csv_row sample_runtime blank_name_record = ''A1,Ada Lovelace,Positive,Update email,0.9,Gold''"
  by (simp add: csv_row_def row_values_def out_def or_else_def element_text_def
      blank_name_record_def blank_name_profile_def initialRes_def sample_item_def
      sample_customer_def sample_runtime_def)

text \<open>
  C7, amended. The profile of a row is the consolidated output when there is one and it
  is truthy, else the deep (pro) output when that is truthy, else the fast (flash) output.
  The first field is the record's id. When the profile is an object, each of Customer,
  Sentiment, Intent, Confidence and Tier is the profile's property \<^verbatim>\<open>name\<close>,
  \<^verbatim>\<open>latest_sentiment\<close>, \<^verbatim>\<open>identified_intent\<close>, \<^verbatim>\<open>confidence_score\<close>,
  \<^verbatim>\<open>current_tier\<close> when the profile has it with a truthy value (not the empty
  string, zero, \<^verbatim>\<open>false\<close> or \<^verbatim>\<open>null\<close>), and otherwise the fallback: the
  source record's name for Customer, \<^verbatim>\<open>N/A\<close> for Sentiment, Intent and Tier, 0 for
  Confidence. When there is no profile at all (or the profile is not an object), all five
  are the fallbacks.
\<close>

theorem csv_fallback_order:
  "(consolidated h = Some c \<and> truthy (output c) \<longrightarrow> out h = output c) \<and>
   ((consolidated h = None \<or> consolidated h = Some c \<and> \<not> truthy (output c)) \<and>
    truthy (output (pro h)) \<longrightarrow> out h = output (pro h)) \<and>
   ((consolidated h = None \<or> consolidated h = Some c \<and> \<not> truthy (output c)) \<and>
    \<not> truthy (output (pro h)) \<longrightarrow> out h = output (flash h)) \<and>
   row_values h ! 0 = JStr (res_id h) \<and>
   (out h = JObj kvs \<longrightarrow>
      (map_of kvs ''name'' = Some v \<and> truthy v \<longrightarrow> row_values h ! 1 = v) \<and>
      (map_of kvs ''name'' = None \<or> map_of kvs ''name'' = Some v \<and> \<not> truthy v \<longrightarrow>
         row_values h ! 1 = JStr (name (customerRecord (input h)))) \<and>
      (map_of kvs ''latest_sentiment'' = Some v \<and> truthy v \<longrightarrow> row_values h ! 2 = v) \<and>
      (map_of kvs ''latest_sentiment'' = None \<or>
       map_of kvs ''latest_sentiment'' = Some v \<and> \<not> truthy v \<longrightarrow>
         row_values h ! 2 = JStr ''N/A'') \<and>
      (map_of kvs ''identified_intent'' = Some v \<and> truthy v \<longrightarrow> row_values h ! 3 = v) \<and>
      (map_of kvs ''identified_intent'' = None \<or>
       map_of kvs ''identified_intent'' = Some v \<and> \<not> truthy v \<longrightarrow>
         row_values h ! 3 = JStr ''N/A'') \<and>
      (map_of kvs ''confidence_score'' = Some v \<and> truthy v \<longrightarrow> row_values h ! 4 = v) \<and>
      (map_of kvs ''confidence_score'' = None \<or>
       map_of kvs ''confidence_score'' = Some v \<and> \<not> truthy v \<longrightarrow>
         row_values h ! 4 = JNum 0) \<and>
      (map_of kvs ''current_tier'' = Some v \<and> truthy v \<longrightarrow> row_values h ! 5 = v) \<and>
      (map_of kvs ''current_tier'' = None \<or>
       map_of kvs ''current_tier'' = Some v \<and> \<not> truthy v \<longrightarrow>
         row_values h ! 5 = JStr ''N/A'')) \<and>
   ((\<forall>kvs. out h \<noteq> JObj kvs) \<longrightarrow>
      row_values h =
        [JStr (res_id h), JStr (name (customerRecord (input h))), JStr ''N/A'', JStr ''N/A'',
         JNum 0, JStr ''N/A''] \<and>
      csv_row rt h =
        res_id h @ '','' @ name (customerRecord (input h)) @ '',N/A,N/A,'' @
        number_to_string rt 0 @ '',N/A'')"
proof -
  have choice: "consolidated h = Some c \<and> truthy (output c) \<longrightarrow> out h = output c"
    "(consolidated h = None \<or> consolidated h = Some c \<and> \<not> truthy (output c)) \<and>
      truthy (output (pro h)) \<longrightarrow> out h = output (pro h)"
    "(consolidated h = None \<or> consolidated h = Some c \<and> \<not> truthy (output c)) \<and>
      \<not> truthy (output (pro h)) \<longrightarrow> out h = output (flash h)"
    by (auto simp: out_def or_else_def)
  have ident: "row_values h ! 0 = JStr (res_id h)"
    by (simp add: row_values_def)
  have cells: "(map_of kvs ''name'' = Some v \<and> truthy v \<longrightarrow> row_values h ! 1 = v) \<and>
      (map_of kvs ''name'' = None \<or> map_of kvs ''name'' = Some v \<and> \<not> truthy v \<longrightarrow>
         row_values h ! 1 = JStr (name (customerRecord (input h)))) \<and>
      (map_of kvs ''latest_sentiment'' = Some v \<and> truthy v \<longrightarrow> row_values h ! 2 = v) \<and>
      (map_of kvs ''latest_sentiment'' = None \<or>
       map_of kvs ''latest_sentiment'' = Some v \<and> \<not> truthy v \<longrightarrow>
         row_values h ! 2 = JStr ''N/A'') \<and>
      (map_of kvs ''identified_intent'' = Some v \<and> truthy v \<longrightarrow> row_values h ! 3 = v) \<and>
      (map_of kvs ''identified_intent'' = None \<or>
       map_of kvs ''identified_intent'' = Some v \<and> \<not> truthy v \<longrightarrow>
         row_values h ! 3 = JStr ''N/A'') \<and>
      (map_of kvs ''confidence_score'' = Some v \<and> truthy v \<longrightarrow> row_values h ! 4 = v) \<and>
      (map_of kvs ''confidence_score'' = None \<or>
       map_of kvs ''confidence_score'' = Some v \<and> \<not> truthy v \<longrightarrow>
         row_values h ! 4 = JNum 0) \<and>
      (map_of kvs ''current_tier'' = Some v \<and> truthy v \<longrightarrow> row_values h ! 5 = v) \<and>
      (map_of kvs ''current_tier'' = None \<or>
       map_of kvs ''current_tier'' = Some v \<and> \<not> truthy v \<longrightarrow>
         row_values h ! 5 = JStr ''N/A'')" if "out h = JObj kvs"
    using that by (auto simp: row_values_def or_else_def)
  have fallback: "row_values h =
        [JStr (res_id h), JStr (name (customerRecord (input h))), JStr ''N/A'', JStr ''N/A'',
         JNum 0, JStr ''N/A''] \<and>
      csv_row rt h =
        res_id h @ '','' @ name (customerRecord (input h)) @ '',N/A,N/A,'' @
        number_to_string rt 0 @ '',N/A''" if "\<forall>kvs. out h \<noteq> JObj kvs"
  proof -
    have "property (out h) k = None" for k
      using that by (cases "out h") simp_all
    then show ?thesis
      by (simp add: csv_row_def row_values_def or_else_def element_text_def)
  qed
  from cells have c: "out h = JObj kvs \<longrightarrow>
      (map_of kvs ''name'' = Some v \<and> truthy v \<longrightarrow> row_values h ! 1 = v) \<and>
      (map_of kvs ''name'' = None \<or> map_of kvs ''name'' = Some v \<and> \<not> truthy v \<longrightarrow>
         row_values h ! 1 = JStr (name (customerRecord (input h)))) \<and>
      (map_of kvs ''latest_sentiment'' = Some v \<and> truthy v \<longrightarrow> row_values h ! 2 = v) \<and>
      (map_of kvs ''latest_sentiment'' = None \<or>
       map_of kvs ''latest_sentiment'' = Some v \<and> \<not> truthy v \<longrightarrow>
         row_values h ! 2 = JStr ''N/A'') \<and>
      (map_of kvs ''identified_intent'' = Some v \<and> truthy v \<longrightarrow> row_values h ! 3 = v) \<and>
      (map_of kvs ''identified_intent'' = None \<or>
       map_of kvs ''identified_intent'' = Some v \<and> \<not> truthy v \<longrightarrow>
         row_values h ! 3 = JStr ''N/A'') \<and>
      (map_of kvs ''confidence_score'' = Some v \<and> truthy v \<longrightarrow> row_values h ! 4 = v) \<and>
      (map_of kvs ''confidence_score'' = None \<or>
       map_of kvs ''confidence_score'' = Some v \<and> \<not> truthy v \<longrightarrow>
         row_values h ! 4 = JNum 0) \<and>
      (map_of kvs ''current_tier'' = Some v \<and> truthy v \<longrightarrow> row_values h ! 5 = v) \<and>
      (map_of kvs ''current_tier'' = None \<or>
       map_of kvs ''current_tier'' = Some v \<and> \<not> truthy v \<longrightarrow>
         row_values h ! 5 = JStr ''N/A'')"
    by (rule impI)
  from fallback have f: "(\<forall>kvs. out h \<noteq> JObj kvs) \<longrightarrow>
      row_values h =
        [JStr (res_id h), JStr (name (customerRecord (input h))), JStr ''N/A'', JStr ''N/A'',
         JNum 0, JStr ''N/A''] \<and>
      csv_row rt h =
        res_id h @ '','' @ name (customerRecord (input h)) @ '',N/A,N/A,'' @
        number_to_string rt 0 @ '',N/A''"
    by (rule impI)
  show ?thesis
    by (intro conjI choice ident c f)
qed

theorem csv_fallback_order_witness:
  "consolidated fast_only_record = None \<and>
   \<not> truthy (output (pro fast_only_record)) \<and>
   output (flash fast_only_record) = sample_profile \<and>
   out fast_only_record = sample_profile \<and>
   row_values fast_only_record =
     [JStr ''A1'', JStr ''Ada King'', JStr ''Positive'', JStr ''Update email'', JNum (9 / 10),
      JStr ''Gold''] \<and>
   csv_row sample_runtime fast_only_record = ''A1,Ada King,Positive,Update email,0.9,Gold'' \<and>
   out (newEntry sample_item Both) = JNull \<and>
   row_values (newEntry sample_item Both) =
     [JStr ''A1'', JStr ''Ada Lovelace'', JStr ''N/A'', JStr ''N/A'', JNum 0, JStr ''N/A''] \<and>
   csv_row sample_runtime (newEntry sample_item Both) = ''A1,Ada Lovelace,N/A,N/A,0,N/A''"
proof -
  have a: "consolidated fast_only_record = None"
    "\<not> truthy (output (pro fast_only_record))"
    "output (flash fast_only_record) = sample_profile"
    by (simp_all add: fast_only_record_def initialRes_def)
  note fast = csv_fallback_order [where h = fast_only_record and rt = sample_runtime]
  have chosen: "out fast_only_record = sample_profile"
    using fast a by simp
  have b: "consolidated (newEntry sample_item Both) = None"
    "\<not> truthy (output (pro (newEntry sample_item Both)))"
    "output (flash (newEntry sample_item Both)) = JNull"
    by (simp_all add: newEntry_def initialRes_def)
  note fresh = csv_fallback_order [where h = "newEntry sample_item Both" and rt = sample_runtime]
  have none: "out (newEntry sample_item Both) = JNull"
    using fresh b by simp
  have c: "res_id fast_only_record = ''A1''" "res_id (newEntry sample_item Both) = ''A1''"
    "name (customerRecord (input (newEntry sample_item Both))) = ''Ada Lovelace''"
    by (simp_all add: fast_only_record_def newEntry_def sample_item_def sample_customer_def)
  have row: "row_values fast_only_record =
     [JStr ''A1'', JStr ''Ada King'', JStr ''Positive'', JStr ''Update email'', JNum (9 / 10),
      JStr ''Gold'']"
    by (simp add: row_values_def chosen c sample_profile_def or_else_def)
  have fb: "row_values (newEntry sample_item Both) =
     [JStr ''A1'', JStr ''Ada Lovelace'', JStr ''N/A'', JStr ''N/A'', JNum 0, JStr ''N/A''] \<and>
     csv_row sample_runtime (newEntry sample_item Both) = ''A1,Ada Lovelace,N/A,N/A,0,N/A''"
    using fresh none c by (simp add: sample_runtime_def)
  show ?thesis
    using a chosen row fb none
    by (simp add: csv_row_def element_text_def sample_runtime_def)
qed

section \<open>The orchestrator and the store\<close>

lemmas model_defs =
  processQueue_def processNext_def executeItemProcessing_def handleRetry_def
  flashCallback_def proCallback_def pathSettled_def afterPromiseAll_def afterExecute_def
  consolidateSettled_def summaryResolved_def summaryRejected_def updateRecord_def
  newEntry_def initialRes_def initial_def



lemma afterExecute_fields [simp]:
  "history (afterExecute now b s) = history s"
  "runs (afterExecute now b s) = runs s"
  "queue (afterExecute now b s) = queue s"
  "selectedMode (afterExecute now b s) = selectedMode s"
  "drainMode (afterExecute now b s) = drainMode s"
  by (simp_all add: afterExecute_def)

lemma ball_updateRecord:
  "(\<forall>h\<in>set (updateRecord i f hs). P h) = (\<forall>h\<in>set hs. P (if res_id h = i then f h else h))"
  by (auto simp: updateRecord_def)

lemma store_ok_pathSettled: "store_ok s \<Longrightarrow> store_ok (pathSettled now k s)"
  by (simp add: store_ok_def pathSettled_def afterPromiseAll_def Let_def ball_updateRecord)

lemma store_ok_flashCallback:
  assumes "store_ok s" and "\<forall>j. cb = OnComplete j \<longrightarrow> j \<noteq> JNull"
  shows "store_ok (flashCallback now k cb s)"
proof (cases cb)
  case (OnUpdate t)
  then show ?thesis
    using assms
    by (simp add: flashCallback_def Let_def store_ok_def ball_updateRecord completed_has_payload_def)
next
  case (OnComplete json)
  have "store_ok (s\<lparr>history := updateRecord (item_id (item (runs s ! k)))
                 (\<lambda>h. h\<lparr>flash := (flash h)\<lparr>output := json,
                                            durationMs := now - flashStart (runs s ! k),
                                            status := Completed,
                                            logs := [''Flash: Rapid Merge Complete.'']\<rparr>\<rparr>)
                 (history s),
               runs := (runs s)[k := (runs s ! k)\<lparr>flashRes := json, flashSettled := True\<rparr>]\<rparr>)"
    using assms OnComplete by (simp add: store_ok_def ball_updateRecord completed_has_payload_def)
  then show ?thesis
    by (simp add: flashCallback_def OnComplete Let_def store_ok_pathSettled)
next
  case (OnError err)
  have "store_ok (s\<lparr>history := updateRecord (item_id (item (runs s ! k)))
                 (\<lambda>h. h\<lparr>flash := (flash h)\<lparr>status := Error, logs := [err]\<rparr>\<rparr>) (history s),
               runs := (runs s)[k := (runs s ! k)\<lparr>flashSettled := True\<rparr>]\<rparr>)"
    using assms by (simp add: store_ok_def ball_updateRecord completed_has_payload_def)
  then show ?thesis
    by (simp add: flashCallback_def OnError Let_def store_ok_pathSettled)
qed

lemma store_ok_proCallback:
  assumes "store_ok s" and "\<forall>j. cb = OnComplete j \<longrightarrow> j \<noteq> JNull"
  shows "store_ok (proCallback now k cb s)"
proof (cases cb)
  case (OnUpdate t)
  then show ?thesis
    using assms
    by (simp add: proCallback_def Let_def store_ok_def ball_updateRecord completed_has_payload_def)
next
  case (OnComplete json)
  have "store_ok (s\<lparr>history := updateRecord (item_id (item (runs s ! k)))
                 (\<lambda>h. h\<lparr>pro := (pro h)\<lparr>output := json,
                                        durationMs := now - proStart (runs s ! k),
                                        status := Completed,
                                        logs := [''Pro: Deep reasoning complete.'']\<rparr>\<rparr>)
                 (history s),
               runs := (runs s)[k := (runs s ! k)\<lparr>proRes := json, proSettled := True\<rparr>]\<rparr>)"
    using assms OnComplete by (simp add: store_ok_def ball_updateRecord completed_has_payload_def)
  then show ?thesis
    by (simp add: proCallback_def OnComplete Let_def store_ok_pathSettled)
next
  case (OnError err)
  have "store_ok (s\<lparr>history := updateRecord (item_id (item (runs s ! k)))
                 (\<lambda>h. h\<lparr>pro := (pro h)\<lparr>status := Error, logs := [err]\<rparr>\<rparr>) (history s),
               runs := (runs s)[k := (runs s ! k)\<lparr>proSettled := True\<rparr>]\<rparr>)"
    using assms by (simp add: store_ok_def ball_updateRecord completed_has_payload_def)
  then show ?thesis
    by (simp add: proCallback_def OnError Let_def store_ok_pathSettled)
qed

lemma store_ok_consolidateSettled: "store_ok s \<Longrightarrow> store_ok (consolidateSettled now k res s)"
  by (simp add: store_ok_def consolidateSettled_def Let_def ball_updateRecord)

lemma store_ok_summaryResolved: "store_ok s \<Longrightarrow> store_ok (summaryResolved k t s)"
  by (simp add: store_ok_def summaryResolved_def Let_def ball_updateRecord)

lemma store_ok_summaryRejected: "store_ok s \<Longrightarrow> store_ok (summaryRejected k e s)"
  by (simp add: store_ok_def summaryRejected_def)

lemma store_ok_handleRetry: "store_ok s \<Longrightarrow> store_ok (handleRetry now i s)"
  by (simp add: store_ok_def handleRetry_def executeItemProcessing_def ball_updateRecord
      completed_has_payload_def split: option.splits)

lemma store_ok_processNext: "store_ok s \<Longrightarrow> store_ok (processNext now s)"
  by (simp add: store_ok_def processNext_def executeItemProcessing_def newEntry_def
      initialRes_def completed_has_payload_def split: list.splits)

lemma store_ok_step:
  assumes "store_ok s" and "nonnull_completion e"
  shows "store_ok (step now e s)"
proof (cases e)
  case ProcessQueue
  have "store_ok (s\<lparr>isProcessing := True, drainMode := selectedMode s\<rparr>)"
    using assms by (simp add: store_ok_def)
  then show ?thesis
    using assms by (simp add: ProcessQueue processQueue_def store_ok_processNext)
next
  case TimerFired
  have "store_ok (s\<lparr>timerDue := None\<rparr>)"
    using assms by (simp add: store_ok_def)
  then show ?thesis
    using assms by (simp add: TimerFired store_ok_processNext split: option.splits)
next
  case (AddToQueue newData)
  then show ?thesis using assms by (simp add: store_ok_def)
next
  case ClearQueue
  then show ?thesis using assms by (simp add: store_ok_def)
next
  case ClearHistory
  then show ?thesis by (simp add: store_ok_def)
next
  case (SetSelectedMode m)
  then show ?thesis using assms by (simp add: store_ok_def)
next
  case (HandleRetry i)
  then show ?thesis using assms by (simp add: store_ok_handleRetry)
next
  case (SummaryResolved k t)
  then show ?thesis using assms by (simp add: store_ok_summaryResolved)
next
  case (SummaryRejected k t)
  then show ?thesis using assms by (simp add: store_ok_summaryRejected)
next
  case (FlashCallback k cb)
  have "\<forall>j. cb = OnComplete j \<longrightarrow> j \<noteq> JNull"
    using assms(2) FlashCallback by auto
  then show ?thesis using assms(1) FlashCallback by (simp add: store_ok_flashCallback)
next
  case (ProCallback k cb)
  have "\<forall>j. cb = OnComplete j \<longrightarrow> j \<noteq> JNull"
    using assms(2) ProCallback by auto
  then show ?thesis using assms(1) ProCallback by (simp add: store_ok_proCallback)
next
  case (ConsolidateSettled k res)
  then show ?thesis using assms by (simp add: store_ok_consolidateSettled)
qed

lemma store_ok_exec:
  "store_ok s \<Longrightarrow> \<forall>te \<in> set evs. nonnull_completion (snd te) \<Longrightarrow> store_ok (exec evs s)"
  by (induction evs arbitrary: s) (simp_all add: store_ok_step)

text \<open>
  C4, as the claim states it, fails: an item is drained in mode Both, its fast path
  completes and its deep path fails; the retry of that record then sets the status of
  both paths to \<^verbatim>\<open>processing\<close> and keeps the fast path's output, so that output is
  non-null while the status is not \<^verbatim>\<open>completed\<close>.
\<close>

theorem payload_iff_completed_counterexample:
  "payload_iff_completed (flash (history before_retry ! 0)) \<and>
   status (flash (history (step 9 (HandleRetry ''A1'') before_retry) ! 0)) = Processing \<and>
   output (flash (history (step 9 (HandleRetry ''A1'') before_retry) ! 0)) = sample_profile \<and>
   sample_profile \<noteq> JNull \<and>
   \<not> payload_iff_completed (flash (history (step 9 (HandleRetry ''A1'') before_retry) ! 0))"
proof -
  have iid: "item_id sample_item = ''A1''"
    by (simp add: sample_item_def)
  show ?thesis
    by (simp add: before_retry_def model_defs iid payload_iff_completed_def sample_profile_def)
qed

text \<open>
  C4, amended. As long as the values delivered by the completion callbacks are not
  \<^verbatim>\<open>null\<close>: in every state reached from the mounted component by any sequence of
  events (record creation, streaming updates, completion and failure callbacks, retries,
  and all the others), every path resolution of every history record whose status is
  \<^verbatim>\<open>completed\<close> has a non-null output; and every single event keeps this. The converse
  is not kept by a retry, which leaves the prior output in place under the status
  \<^verbatim>\<open>processing\<close>.
\<close>

theorem completed_has_payload_invariant:
  "(store_ok s \<and> nonnull_completion e \<longrightarrow> store_ok (step now e s)) \<and>
   ((\<forall>te \<in> set evs. nonnull_completion (snd te)) \<longrightarrow> store_ok (exec evs (initial q m)))"
proof -
  have "store_ok (initial q m)"
    by (simp add: store_ok_def initial_def)
  then show ?thesis
    by (simp add: store_ok_exec store_ok_step)
qed

theorem completed_has_payload_invariant_witness:
  "nonnull_completion (HandleRetry ''A1'') \<and>
   list_all (\<lambda>te. nonnull_completion (snd te))
     [(0, ProcessQueue), (5, FlashCallback 0 (OnComplete sample_profile)),
      (7, ProCallback 0 (OnError ''Pro Engine Fault: 503''))] \<and>
   store_ok before_retry \<and>
   map (\<lambda>h. status (flash h)) (history before_retry) = [Completed] \<and>
   map (\<lambda>h. output (flash h)) (history before_retry) = [sample_profile] \<and>
   store_ok (step 9 (HandleRetry ''A1'') before_retry)"
proof -
  have iid: "item_id sample_item = ''A1''"
    by (simp add: sample_item_def)
  have nonnull: "\<forall>te \<in> set [(0::real, ProcessQueue), (5, FlashCallback 0 (OnComplete sample_profile)),
      (7, ProCallback 0 (OnError ''Pro Engine Fault: 503''))]. nonnull_completion (snd te)"
    by (simp add: sample_profile_def)
  have ok: "store_ok before_retry"
    unfolding before_retry_def
    using completed_has_payload_invariant
      [of before_retry "HandleRetry ''A1''" 9
        "[(0, ProcessQueue), (5, FlashCallback 0 (OnComplete sample_profile)),
          (7, ProCallback 0 (OnError ''Pro Engine Fault: 503''))]"
        "[sample_item]" Both] nonnull
    by blast
  have next_ok: "store_ok (step 9 (HandleRetry ''A1'') before_retry)"
    using completed_has_payload_invariant [of before_retry "HandleRetry ''A1''" 9 "[]" "[]" Flash] ok
    by simp
  have vals: "map (\<lambda>h. status (flash h)) (history before_retry) = [Completed]"
    "map (\<lambda>h. output (flash h)) (history before_retry) = [sample_profile]"
    by (simp_all add: before_retry_def model_defs iid)
  show ?thesis using ok next_ok vals by (simp add: sample_profile_def)
qed

text \<open>
  The summary request of the gateway itself never rejects: whatever goes wrong inside
  \<^verbatim>\<open>summarizeTranscript\<close> (no key, a rejected remote call, a response without text),
  it is fulfilled with the fixed failure string.
\<close>

lemma summarizeTranscript_fault_sentinel:
  "summarizeTranscript rt None response = ''Summary generation failed.'' \<and>
   summarizeTranscript rt (Some []) response = ''Summary generation failed.'' \<and>
   summarizeTranscript rt apiKey (Inl e) = ''Summary generation failed.'' \<and>
   summarizeTranscript rt apiKey (Inr None) = ''Summary generation failed.''"
  by (simp add: summarizeTranscript_def getClient_def split: option.splits sum.splits)














section \<open>The scheduler\<close>

lemma map_update_same: "f y = f (xs ! k) \<Longrightarrow> map f (xs[k := y]) = map f xs"
  by (cases "k < length xs") (auto simp: list_eq_iff_nth_eq nth_list_update)

lemma cm_pathSettled: "map caller_mode (runs (pathSettled now k s)) = map caller_mode (runs s)"
  by (simp add: pathSettled_def afterPromiseAll_def Let_def map_update_same caller_mode_def)

lemma cm_flashCallback: "map caller_mode (runs (flashCallback now k cb s)) = map caller_mode (runs s)"
  by (cases cb) (simp_all add: flashCallback_def Let_def cm_pathSettled map_update_same caller_mode_def)

lemma cm_proCallback: "map caller_mode (runs (proCallback now k cb s)) = map caller_mode (runs s)"
  by (cases cb) (simp_all add: proCallback_def Let_def cm_pathSettled map_update_same caller_mode_def)

lemma cm_consolidateSettled:
  "map caller_mode (runs (consolidateSettled now k res s)) = map caller_mode (runs s)"
  by (simp add: consolidateSettled_def Let_def map_update_same caller_mode_def)

lemma cm_summaryResolved:
  "map caller_mode (runs (summaryResolved k t s)) = map caller_mode (runs s)"
  by (simp add: summaryResolved_def Let_def map_update_same caller_mode_def)

lemma cm_summaryRejected:
  "map caller_mode (runs (summaryRejected k e s)) = map caller_mode (runs s)"
  by (simp add: summaryRejected_def map_update_same caller_mode_def)

lemma cm_handleRetry:
  "map caller_mode (runs (handleRetry now i s)) =
     map caller_mode (runs s) @
       (case find (\<lambda>h. res_id h = i) (history s) of None \<Rightarrow> [] | Some _ \<Rightarrow> [(False, selectedMode s)])"
  by (simp add: handleRetry_def executeItemProcessing_def caller_mode_def split: option.splits)

lemma cm_processNext:
  "map caller_mode (runs (processNext now s)) =
     map caller_mode (runs s) @ (if queue s = [] then [] else [(True, drainMode s)])"
  by (simp add: processNext_def executeItemProcessing_def caller_mode_def split: list.splits)

lemma drainMode_processNext: "drainMode (processNext now s) = drainMode s"
  by (simp add: processNext_def executeItemProcessing_def split: list.splits)

lemma drainMode_pathSettled: "drainMode (pathSettled now k s) = drainMode s"
  by (simp add: pathSettled_def afterPromiseAll_def Let_def)

lemma drainMode_step: "e \<noteq> ProcessQueue \<Longrightarrow> drainMode (step now e s) = drainMode s"
  by (cases e)
    (simp_all add: drainMode_processNext handleRetry_def executeItemProcessing_def
      summaryResolved_def summaryRejected_def flashCallback_def proCallback_def
      consolidateSettled_def drainMode_pathSettled Let_def
      split: option.splits callback.splits)

lemma cm_step:
  "\<exists>new. map caller_mode (runs (step now e s)) = map caller_mode (runs s) @ new \<and>
         (\<forall>c \<in> set new. fst c \<longrightarrow> snd c = drainMode (step now e s))"
proof (cases e)
  case ProcessQueue
  then show ?thesis
    by (simp add: processQueue_def cm_processNext drainMode_processNext)
next
  case TimerFired
  then show ?thesis
    by (simp add: cm_processNext drainMode_processNext split: option.splits)
next
  case (HandleRetry i)
  then show ?thesis
    by (simp add: cm_handleRetry split: option.splits)
qed (simp_all add: cm_flashCallback cm_proCallback cm_consolidateSettled cm_summaryResolved
      cm_summaryRejected)

lemma cm_exec:
  assumes "\<forall>te \<in> set evs. snd te \<noteq> ProcessQueue"
  shows "drainMode (exec evs s) = drainMode s \<and>
         (\<exists>new. map caller_mode (runs (exec evs s)) = map caller_mode (runs s) @ new \<and>
                (\<forall>c \<in> set new. fst c \<longrightarrow> snd c = drainMode s))"
  using assms
proof (induction evs arbitrary: s)
  case Nil
  then show ?case by simp
next
  case (Cons te evs)
  let ?s1 = "step (fst te) (snd te) s"
  have dm: "drainMode ?s1 = drainMode s"
    using Cons.prems by (simp add: drainMode_step)
  obtain new1 where n1: "map caller_mode (runs ?s1) = map caller_mode (runs s) @ new1"
    and m1: "\<forall>c \<in> set new1. fst c \<longrightarrow> snd c = drainMode ?s1"
    using cm_step [of "fst te" "snd te" s] by blast
  from Cons.IH [of ?s1] Cons.prems
  obtain new2 where d2: "drainMode (exec evs ?s1) = drainMode ?s1"
    and n2: "map caller_mode (runs (exec evs ?s1)) = map caller_mode (runs ?s1) @ new2"
    and m2: "\<forall>c \<in> set new2. fst c \<longrightarrow> snd c = drainMode ?s1"
    by auto
  have "map caller_mode (runs (exec (te # evs) s)) = map caller_mode (runs s) @ (new1 @ new2)"
    using n1 n2 by simp
  moreover have "\<forall>c \<in> set (new1 @ new2). fst c \<longrightarrow> snd c = drainMode s"
    using m1 m2 dm by auto
  ultimately show ?case
    using d2 dm by (metis exec.simps(2))
qed

text \<open>
  C9. In a state reached by the component in which no drain is running and the queue is not
  empty, \<^verbatim>\<open>processQueue\<close> starts a drain; whatever happens afterwards short of another
  call of \<^verbatim>\<open>processQueue\<close> (mode changes by the user included), every invocation of
  the orchestrator made from the queue since that start runs with the mode that was
  selected when \<^verbatim>\<open>processQueue\<close> was called.
\<close>

theorem drain_keeps_start_mode:
  assumes "s = exec evs0 (initial q m0)"
    and "\<not> isProcessing s" and "queue s \<noteq> []"
    and "\<forall>te \<in> set evs. snd te \<noteq> ProcessQueue"
  shows "\<forall>k. length (runs s) \<le> k \<and> k < length (runs (exec evs (step now ProcessQueue s))) \<and>
              fromQueue (runs (exec evs (step now ProcessQueue s)) ! k)
           \<longrightarrow> mode (runs (exec evs (step now ProcessQueue s)) ! k) = selectedMode s"
proof (intro allI impI)
  fix k
  let ?s1 = "step now ProcessQueue s"
  let ?s2 = "exec evs ?s1"
  assume k: "length (runs s) \<le> k \<and> k < length (runs ?s2) \<and> fromQueue (runs ?s2 ! k)"
  have dm1: "drainMode ?s1 = selectedMode s"
    using assms(2,3) by (simp add: processQueue_def drainMode_processNext)
  have cm1: "map caller_mode (runs ?s1) = map caller_mode (runs s) @ [(True, selectedMode s)]"
    using assms(2,3) by (simp add: processQueue_def cm_processNext)
  from cm_exec [OF assms(4), of ?s1]
  obtain new where cm2: "map caller_mode (runs ?s2) = map caller_mode (runs ?s1) @ new"
    and started: "\<forall>c \<in> set new. fst c \<longrightarrow> snd c = drainMode ?s1"
    by blast
  have all: "map caller_mode (runs ?s2) = map caller_mode (runs s) @ ((True, selectedMode s) # new)"
    using cm1 cm2 by simp
  have "caller_mode (runs ?s2 ! k) = map caller_mode (runs ?s2) ! k"
    using k by simp
  also have "\<dots> = (map caller_mode (runs s) @ ((True, selectedMode s) # new)) ! k"
    by (simp only: all)
  also have "\<dots> = ((True, selectedMode s) # new) ! (k - length (runs s))"
    using k by (simp add: nth_append)
  finally have at_k: "caller_mode (runs ?s2 ! k) = ((True, selectedMode s) # new) ! (k - length (runs s))" .
  have "length (map caller_mode (runs ?s2)) =
      length (map caller_mode (runs s) @ ((True, selectedMode s) # new))"
    by (simp only: all)
  then have "k - length (runs s) < length ((True, selectedMode s) # new)"
    using k by auto
  then have "caller_mode (runs ?s2 ! k) \<in> set ((True, selectedMode s) # new)"
    unfolding at_k by (rule nth_mem)
  then have "fst (caller_mode (runs ?s2 ! k)) \<longrightarrow> snd (caller_mode (runs ?s2 ! k)) = selectedMode s"
    using started dm1 by auto
  then show "mode (runs ?s2 ! k) = selectedMode s"
    using k by (simp add: caller_mode_def)
qed

theorem drain_keeps_start_mode_witness:
  "\<not> isProcessing (initial [sample_item, second_item] Both) \<and>
   queue (initial [sample_item, second_item] Both) \<noteq> [] \<and>
   selectedMode (initial [sample_item, second_item] Both) = Both \<and>
   selectedMode (exec mode_switch_trace
     (step 0 ProcessQueue (initial [sample_item, second_item] Both))) = Flash \<and>
   length (runs (exec mode_switch_trace
     (step 0 ProcessQueue (initial [sample_item, second_item] Both)))) = 2 \<and>
   item (runs (exec mode_switch_trace
     (step 0 ProcessQueue (initial [sample_item, second_item] Both))) ! 1) = second_item \<and>
   fromQueue (runs (exec mode_switch_trace
     (step 0 ProcessQueue (initial [sample_item, second_item] Both))) ! 1) \<and>
   mode (runs (exec mode_switch_trace
     (step 0 ProcessQueue (initial [sample_item, second_item] Both))) ! 1) = Both"
proof -
  let ?s = "initial [sample_item, second_item] Both"
  let ?s2 = "exec mode_switch_trace (step 0 ProcessQueue ?s)"
  have reach: "?s = exec [] (initial [sample_item, second_item] Both)"
    by simp
  have idle: "\<not> isProcessing ?s" "queue ?s \<noteq> []" "selectedMode ?s = Both" "length (runs ?s) = 0"
    by (simp_all add: initial_def)
  have no_start: "\<forall>te \<in> set mode_switch_trace. snd te \<noteq> ProcessQueue"
    by (simp add: mode_switch_trace_def)
  have facts: "selectedMode ?s2 = Flash" "length (runs ?s2) = 2"
    "item (runs ?s2 ! 1) = second_item" "fromQueue (runs ?s2 ! 1)"
    by (simp_all add: mode_switch_trace_def model_defs)
  have "mode (runs ?s2 ! 1) = selectedMode ?s"
    using drain_keeps_start_mode [OF reach idle(1,2) no_start, of 0] idle(4) facts(2,4)
    by simp
  then show ?thesis
    using idle facts by simp
qed

lemma filter_update_same:
  "P y = P (xs ! k) \<Longrightarrow> length (filter P (xs[k := y])) = length (filter P xs)"
proof (induction xs arbitrary: k)
  case Nil
  then show ?case by simp
next
  case (Cons x xs)
  then show ?case by (cases k) auto
qed

lemma filter_update_drop:
  "k < length xs \<Longrightarrow> P (xs ! k) \<Longrightarrow> \<not> P y \<Longrightarrow>
     Suc (length (filter P (xs[k := y]))) = length (filter P xs)"
proof (induction xs arbitrary: k)
  case Nil
  then show ?case by simp
next
  case (Cons x xs)
  then show ?case by (cases k) auto
qed

lemma single_flight_count:
  "single_flight s =
     (if isProcessing s
      then (length (filter draining (runs s)) = 1 \<and> timerDue s = None) \<or>
           (length (filter draining (runs s)) = 0 \<and> timerDue s \<noteq> None)
      else length (filter draining (runs s)) = 0 \<and> timerDue s = None)"
  by (simp add: single_flight_def)

lemma sf_returned:
  assumes "single_flight s" and "k < length (runs s)" and "phase (runs s ! k) \<noteq> Returned"
    and "phase r' = Returned" and "fromQueue r' = fromQueue (runs s ! k)"
    and "runs s' = (runs s)[k := r']" and "isProcessing s' = isProcessing s"
    and "timerDue s' = timerDue s"
  shows "single_flight (afterExecute now (fromQueue (runs s ! k)) s')"
proof (cases "fromQueue (runs s ! k)")
  case True
  then have "draining (runs s ! k)" "\<not> draining r'"
    using assms(3,4) by (simp_all add: draining_def)
  then have "Suc (length (filter draining (runs s'))) = length (filter draining (runs s))"
    using assms(2,6) by (simp add: filter_update_drop)
  then show ?thesis
    using assms(1,7,8) True
    by (auto simp: single_flight_count afterExecute_def split: if_splits)
next
  case False
  then have "draining r' = draining (runs s ! k)"
    using assms(5) by (simp add: draining_def)
  then have "length (filter draining (runs s')) = length (filter draining (runs s))"
    using assms(6) by (simp add: filter_update_same)
  then show ?thesis
    using assms(1,7,8) False
    by (auto simp: single_flight_count afterExecute_def split: if_splits)
qed

lemma sf_same:
  assumes "single_flight s" and "draining r' = draining (runs s ! k)"
    and "runs s' = (runs s)[k := r']" and "isProcessing s' = isProcessing s"
    and "timerDue s' = timerDue s"
  shows "single_flight s'"
proof -
  have "length (filter draining (runs s')) = length (filter draining (runs s))"
    using assms(2,3) by (simp add: filter_update_same)
  then show ?thesis
    using assms(1,4,5) by (auto simp: single_flight_count split: if_splits)
qed

lemma sf_pathSettled:
  assumes "single_flight s" and "k < length (runs s)" and "phase (runs s ! k) \<noteq> Returned"
  shows "single_flight (pathSettled now k s)"
proof (cases "flashSettled (runs s ! k) \<and> proSettled (runs s ! k)")
  case False
  then show ?thesis using assms(1) by (auto simp: pathSettled_def)
next
  case True
  show ?thesis
  proof (cases "mode (runs s ! k) = Both \<and> truthy (flashRes (runs s ! k)) \<and> truthy (proRes (runs s ! k))")
    case synth: True
    have "single_flight (afterPromiseAll now k s)"
      by (rule sf_same [OF assms(1), where k = k and
            r' = "(runs s ! k)\<lparr>phase := AwaitingSynthesis, conStart := now,
                                synthCalls := Suc (synthCalls (runs s ! k))\<rparr>"])
        (use synth assms(3) in \<open>auto simp: afterPromiseAll_def Let_def draining_def\<close>)
    then show ?thesis using True by (simp add: pathSettled_def)
  next
    case False
    have "single_flight (afterExecute now (fromQueue (runs s ! k))
            (s\<lparr>runs := (runs s)[k := (runs s ! k)\<lparr>phase := Returned\<rparr>]\<rparr>))"
      by (rule sf_returned [OF assms, where r' = "(runs s ! k)\<lparr>phase := Returned\<rparr>"]) simp_all
    then show ?thesis
      using True False by (auto simp: pathSettled_def afterPromiseAll_def Let_def)
  qed
qed

lemma sf_flashCallback:
  assumes "single_flight s" and "k < length (runs s)" and "phase (runs s ! k) = AwaitingPaths"
  shows "single_flight (flashCallback now k cb s)"
proof (cases cb)
  case (OnUpdate t)
  then show ?thesis
    using assms(1) by (auto simp: flashCallback_def Let_def single_flight_def split: if_splits)
next
  case (OnComplete json)
  let ?s1 = "s\<lparr>history := updateRecord (item_id (item (runs s ! k)))
                 (\<lambda>h. h\<lparr>flash := (flash h)\<lparr>output := json,
                                            durationMs := now - flashStart (runs s ! k),
                                            status := Completed,
                                            logs := [''Flash: Rapid Merge Complete.'']\<rparr>\<rparr>)
                 (history s),
               runs := (runs s)[k := (runs s ! k)\<lparr>flashRes := json, flashSettled := True\<rparr>]\<rparr>"
  have "single_flight ?s1"
    by (rule sf_same [OF assms(1), where k = k and
          r' = "(runs s ! k)\<lparr>flashRes := json, flashSettled := True\<rparr>"])
      (simp_all add: draining_def)
  then have "single_flight (pathSettled now k ?s1)"
    using assms(2,3) by (intro sf_pathSettled) simp_all
  then show ?thesis
    by (simp add: flashCallback_def OnComplete Let_def)
next
  case (OnError err)
  let ?s1 = "s\<lparr>history := updateRecord (item_id (item (runs s ! k)))
                 (\<lambda>h. h\<lparr>flash := (flash h)\<lparr>status := Error, logs := [err]\<rparr>\<rparr>) (history s),
               runs := (runs s)[k := (runs s ! k)\<lparr>flashSettled := True\<rparr>]\<rparr>"
  have "single_flight ?s1"
    by (rule sf_same [OF assms(1), where k = k and
          r' = "(runs s ! k)\<lparr>flashSettled := True\<rparr>"])
      (simp_all add: draining_def)
  then have "single_flight (pathSettled now k ?s1)"
    using assms(2,3) by (intro sf_pathSettled) simp_all
  then show ?thesis
    by (simp add: flashCallback_def OnError Let_def)
qed

lemma sf_proCallback:
  assumes "single_flight s" and "k < length (runs s)" and "phase (runs s ! k) = AwaitingPaths"
  shows "single_flight (proCallback now k cb s)"
proof (cases cb)
  case (OnUpdate t)
  then show ?thesis
    using assms(1) by (auto simp: proCallback_def Let_def single_flight_def split: if_splits)
next
  case (OnComplete json)
  let ?s1 = "s\<lparr>history := updateRecord (item_id (item (runs s ! k)))
                 (\<lambda>h. h\<lparr>pro := (pro h)\<lparr>output := json,
                                        durationMs := now - proStart (runs s ! k),
                                        status := Completed,
                                        logs := [''Pro: Deep reasoning complete.'']\<rparr>\<rparr>)
                 (history s),
               runs := (runs s)[k := (runs s ! k)\<lparr>proRes := json, proSettled := True\<rparr>]\<rparr>"
  have "single_flight ?s1"
    by (rule sf_same [OF assms(1), where k = k and
          r' = "(runs s ! k)\<lparr>proRes := json, proSettled := True\<rparr>"])
      (simp_all add: draining_def)
  then have "single_flight (pathSettled now k ?s1)"
    using assms(2,3) by (intro sf_pathSettled) simp_all
  then show ?thesis
    by (simp add: proCallback_def OnComplete Let_def)
next
  case (OnError err)
  let ?s1 = "s\<lparr>history := updateRecord (item_id (item (runs s ! k)))
                 (\<lambda>h. h\<lparr>pro := (pro h)\<lparr>status := Error, logs := [err]\<rparr>\<rparr>) (history s),
               runs := (runs s)[k := (runs s ! k)\<lparr>proSettled := True\<rparr>]\<rparr>"
  have "single_flight ?s1"
    by (rule sf_same [OF assms(1), where k = k and
          r' = "(runs s ! k)\<lparr>proSettled := True\<rparr>"])
      (simp_all add: draining_def)
  then have "single_flight (pathSettled now k ?s1)"
    using assms(2,3) by (intro sf_pathSettled) simp_all
  then show ?thesis
    by (simp add: proCallback_def OnError Let_def)
qed

lemma sf_consolidateSettled:
  assumes "single_flight s" and "k < length (runs s)" and "phase (runs s ! k) = AwaitingSynthesis"
  shows "single_flight (consolidateSettled now k res s)"
proof -
  have "single_flight (afterExecute now (fromQueue (runs s ! k))
          (s\<lparr>history := updateRecord (item_id (item (runs s ! k))) f (history s),
             runs := (runs s)[k := (runs s ! k)\<lparr>phase := Returned\<rparr>]\<rparr>))" for f
    by (rule sf_returned [OF assms(1,2), where r' = "(runs s ! k)\<lparr>phase := Returned\<rparr>"])
      (simp_all add: assms(3))
  then show ?thesis
    by (simp add: consolidateSettled_def Let_def)
qed

lemma sf_summaryResolved: "single_flight s \<Longrightarrow> single_flight (summaryResolved k t s)"
  by (rule sf_same [where k = k and r' = "(runs s ! k)\<lparr>summaryPending := False\<rparr>"])
    (simp_all add: summaryResolved_def Let_def draining_def)

lemma sf_summaryRejected: "single_flight s \<Longrightarrow> single_flight (summaryRejected k e s)"
  by (rule sf_same [where k = k and r' = "(runs s ! k)\<lparr>summaryPending := False\<rparr>"])
    (simp_all add: summaryRejected_def draining_def)

lemma sf_handleRetry: "single_flight s \<Longrightarrow> single_flight (handleRetry now i s)"
  by (auto simp: single_flight_def handleRetry_def executeItemProcessing_def draining_def
      split: option.splits if_splits)

lemma sf_processNext:
  assumes "filter draining (runs s) = []" and "timerDue s = None" and "isProcessing s"
  shows "single_flight (processNext now s)"
  using assms
  by (auto simp: single_flight_def processNext_def executeItemProcessing_def draining_def
      split: list.splits)

lemma sf_step:
  assumes "single_flight s"
  shows "single_flight (step now e s)"
proof (cases e)
  case ProcessQueue
  show ?thesis
  proof (cases "isProcessing s \<or> queue s = []")
    case True
    then show ?thesis using assms by (simp add: ProcessQueue processQueue_def)
  next
    case False
    then have "filter draining (runs s) = []" "timerDue s = None"
      using assms by (simp_all add: single_flight_def)
    then have "single_flight (processNext now (s\<lparr>isProcessing := True, drainMode := selectedMode s\<rparr>))"
      by (intro sf_processNext) simp_all
    then show ?thesis using False by (simp add: ProcessQueue processQueue_def)
  qed
next
  case TimerFired
  show ?thesis
  proof (cases "timerDue s")
    case None
    then show ?thesis using assms by (simp add: TimerFired)
  next
    case (Some due)
    then have "filter draining (runs s) = []" "isProcessing s"
      using assms by (auto simp: single_flight_def split: if_splits)
    then have "single_flight (processNext now (s\<lparr>timerDue := None\<rparr>))"
      by (intro sf_processNext) simp_all
    then show ?thesis using Some assms by (simp add: TimerFired)
  qed
next
  case (AddToQueue newData)
  then show ?thesis using assms by (auto simp: single_flight_def split: if_splits)
next
  case ClearQueue
  then show ?thesis using assms by (auto simp: single_flight_def split: if_splits)
next
  case ClearHistory
  then show ?thesis using assms by (auto simp: single_flight_def split: if_splits)
next
  case (SetSelectedMode m)
  then show ?thesis using assms by (auto simp: single_flight_def split: if_splits)
next
  case (HandleRetry i)
  then show ?thesis using assms by (simp add: sf_handleRetry)
next
  case (SummaryResolved k t)
  then show ?thesis using assms by (simp add: sf_summaryResolved)
next
  case (SummaryRejected k t)
  then show ?thesis using assms by (simp add: sf_summaryRejected)
next
  case (FlashCallback k cb)
  then show ?thesis using assms by (simp add: sf_flashCallback)
next
  case (ProCallback k cb)
  then show ?thesis using assms by (simp add: sf_proCallback)
next
  case (ConsolidateSettled k res)
  then show ?thesis using assms by (simp add: sf_consolidateSettled)
qed

lemma sf_exec: "single_flight s \<Longrightarrow> single_flight (exec evs s)"
  by (induction evs arbitrary: s) (simp_all add: sf_step)

lemma sf_at_most_one: "single_flight s \<Longrightarrow> length (filter draining (runs s)) \<le> 1"
  by (auto simp: single_flight_def split: if_splits)

lemma map_input_updateRecord:
  "(\<And>h. input (f h) = input h) \<Longrightarrow> map input (updateRecord i f hs) = map input hs"
  by (simp add: updateRecord_def)

lemma fifo_pathSettled:
  "map input (history (pathSettled now k s)) = map input (history s) \<and>
   queue (pathSettled now k s) = queue s"
  by (simp add: pathSettled_def afterPromiseAll_def Let_def map_input_updateRecord)

lemma fifo_flashCallback:
  "map input (history (flashCallback now k cb s)) = map input (history s) \<and>
   queue (flashCallback now k cb s) = queue s"
  by (cases cb) (simp_all add: flashCallback_def Let_def fifo_pathSettled map_input_updateRecord)

lemma fifo_proCallback:
  "map input (history (proCallback now k cb s)) = map input (history s) \<and>
   queue (proCallback now k cb s) = queue s"
  by (cases cb) (simp_all add: proCallback_def Let_def fifo_pathSettled map_input_updateRecord)

lemma fifo_consolidateSettled:
  "map input (history (consolidateSettled now k res s)) = map input (history s) \<and>
   queue (consolidateSettled now k res s) = queue s"
  by (simp add: consolidateSettled_def Let_def map_input_updateRecord)

lemma fifo_summaryResolved:
  "map input (history (summaryResolved k t s)) = map input (history s) \<and>
   queue (summaryResolved k t s) = queue s"
  by (simp add: summaryResolved_def Let_def map_input_updateRecord)

lemma fifo_handleRetry:
  "map input (history (handleRetry now i s)) = map input (history s) \<and>
   queue (handleRetry now i s) = queue s"
  by (simp add: handleRetry_def executeItemProcessing_def map_input_updateRecord
      split: option.splits)

lemma fifo_processNext:
  "map input (history (processNext now s)) @ queue (processNext now s) =
     map input (history s) @ queue s"
  by (simp add: processNext_def executeItemProcessing_def newEntry_def split: list.splits)

lemma fifo_step:
  assumes "e \<noteq> ClearQueue" and "e \<noteq> ClearHistory"
  shows "map input (history (step now e s)) @ queue (step now e s) =
         map input (history s) @ queue s @ (case e of AddToQueue newData \<Rightarrow> newData | _ \<Rightarrow> [])"
proof (cases e)
  case ProcessQueue
  then show ?thesis
    using fifo_processNext [of now "s\<lparr>isProcessing := True, drainMode := selectedMode s\<rparr>"]
    by (simp add: processQueue_def)
next
  case TimerFired
  then show ?thesis
    using fifo_processNext [of now "s\<lparr>timerDue := None\<rparr>"] by (simp split: option.splits)
qed (use assms in \<open>simp_all add: fifo_flashCallback fifo_proCallback fifo_consolidateSettled
      fifo_summaryResolved fifo_handleRetry summaryRejected_def\<close>)

lemma fifo_exec:
  assumes "\<forall>te \<in> set evs. snd te \<noteq> ClearQueue \<and> snd te \<noteq> ClearHistory"
  shows "map input (history (exec evs s)) @ queue (exec evs s) =
         map input (history s) @ queue s @ enqueued evs"
  using assms
proof (induction evs arbitrary: s)
  case Nil
  then show ?case by simp
next
  case (Cons te evs)
  have "map input (history (exec evs (step (fst te) (snd te) s))) @
          queue (exec evs (step (fst te) (snd te) s)) =
        map input (history (step (fst te) (snd te) s)) @ queue (step (fst te) (snd te) s) @
          enqueued evs"
    using Cons by simp
  also have "\<dots> = (map input (history s) @ queue s @
      (case snd te of AddToQueue newData \<Rightarrow> newData | _ \<Rightarrow> [])) @ enqueued evs"
    using fifo_step [of "snd te" "fst te" s] Cons.prems by simp
  finally show ?case by simp
qed

lemma processNext_pops:
  assumes "queue s = itm # rest"
  shows "queue (processNext now s) = rest \<and>
         history (processNext now s) = history s @ [newEntry itm (drainMode s)] \<and>
         runs (processNext now s) = runs s @ [last (runs (processNext now s))] \<and>
         item (last (runs (processNext now s))) = itm \<and>
         fromQueue (last (runs (processNext now s))) \<and>
         mode (last (runs (processNext now s))) = drainMode s \<and>
         phase (last (runs (processNext now s))) = AwaitingPaths \<and>
         drainMode (processNext now s) = drainMode s"
  using assms by (simp add: processNext_def executeItemProcessing_def)


lemma count_fromQueue:
  "length (filter fromQueue xs) = length (filter fst (map caller_mode xs))"
  by (induction xs) (auto simp: caller_mode_def)

lemma queue_pathSettled: "queue (pathSettled now k s) = queue s"
  by (simp add: pathSettled_def afterPromiseAll_def Let_def)

lemma count_from_cm:
  "map caller_mode xs = map caller_mode ys \<Longrightarrow>
     length (filter fromQueue xs) = length (filter fromQueue ys)"
  by (simp only: count_fromQueue)

lemma only_takes_head:
  assumes "\<not> takes_head now e s \<or> queue s = []"
  shows "length (filter fromQueue (runs (step now e s))) = length (filter fromQueue (runs s)) \<and>
         (e \<noteq> ClearQueue \<and> (\<forall>newData. e \<noteq> AddToQueue newData) \<longrightarrow>
            queue (step now e s) = queue s) \<and>
         length (history (step now e s)) \<le> length (history s)"
proof (cases e)
  case ProcessQueue
  then show ?thesis
    using assms by (auto simp: takes_head_def processQueue_def)
next
  case TimerFired
  then show ?thesis
    using assms by (auto simp: takes_head_def processNext_def split: option.splits)
next
  case (HandleRetry i)
  then show ?thesis
    by (simp add: handleRetry_def executeItemProcessing_def updateRecord_def
        split: option.splits)
next
  case (SummaryResolved k t)
  have "length (filter fromQueue (runs (summaryResolved k t s))) =
        length (filter fromQueue (runs s))"
    by (rule count_from_cm [OF cm_summaryResolved])
  moreover have "queue (summaryResolved k t s) = queue s \<and>
        length (history (summaryResolved k t s)) = length (history s)"
    using fifo_summaryResolved [of k t s] by (metis length_map)
  ultimately show ?thesis
    using SummaryResolved by simp
next
  case (SummaryRejected k t)
  have "length (filter fromQueue (runs (summaryRejected k t s))) =
        length (filter fromQueue (runs s))"
    by (rule count_from_cm [OF cm_summaryRejected])
  then show ?thesis
    using SummaryRejected by (simp add: summaryRejected_def)
next
  case (FlashCallback k cb)
  have "length (filter fromQueue (runs (flashCallback now k cb s))) =
        length (filter fromQueue (runs s))"
    by (rule count_from_cm [OF cm_flashCallback])
  moreover have "queue (flashCallback now k cb s) = queue s \<and>
        length (history (flashCallback now k cb s)) = length (history s)"
    using fifo_flashCallback [of now k cb s] by (metis length_map)
  ultimately show ?thesis
    using FlashCallback by simp
next
  case (ProCallback k cb)
  have "length (filter fromQueue (runs (proCallback now k cb s))) =
        length (filter fromQueue (runs s))"
    by (rule count_from_cm [OF cm_proCallback])
  moreover have "queue (proCallback now k cb s) = queue s \<and>
        length (history (proCallback now k cb s)) = length (history s)"
    using fifo_proCallback [of now k cb s] by (metis length_map)
  ultimately show ?thesis
    using ProCallback by simp
next
  case (ConsolidateSettled k res)
  have "length (filter fromQueue (runs (consolidateSettled now k res s))) =
        length (filter fromQueue (runs s))"
    by (rule count_from_cm [OF cm_consolidateSettled])
  moreover have "queue (consolidateSettled now k res s) = queue s \<and>
        length (history (consolidateSettled now k res s)) = length (history s)"
    using fifo_consolidateSettled [of now k res s] by (metis length_map)
  ultimately show ?thesis
    using ConsolidateSettled by simp
qed simp_all

lemma ret_pathSettled:
  assumes "k < length (runs s)" and "draining (runs s ! k)"
    and "\<not> draining (runs (pathSettled now k' s) ! k)"
  shows "queue (pathSettled now k' s) = queue s \<and>
         (queue s \<noteq> [] \<longrightarrow> timerDue (pathSettled now k' s) = Some (now + 1500) \<and>
            isProcessing (pathSettled now k' s) = isProcessing s) \<and>
         (queue s = [] \<longrightarrow> \<not> isProcessing (pathSettled now k' s) \<and>
            timerDue (pathSettled now k' s) = timerDue s)"
proof (cases "k' = k")
  case True
  then show ?thesis
    using assms
    by (auto simp: pathSettled_def afterPromiseAll_def Let_def draining_def afterExecute_def
        split: if_splits)
next
  case False
  then have "runs (pathSettled now k' s) ! k = runs s ! k"
    by (auto simp: pathSettled_def afterPromiseAll_def Let_def)
  then show ?thesis using assms by simp
qed

lemma ret_flashCallback:
  assumes "k < length (runs s)" and "draining (runs s ! k)"
    and "\<not> draining (runs (flashCallback now k' cb s) ! k)"
  shows "queue (flashCallback now k' cb s) = queue s \<and>
         (queue s \<noteq> [] \<longrightarrow> timerDue (flashCallback now k' cb s) = Some (now + 1500) \<and>
            isProcessing (flashCallback now k' cb s) = isProcessing s) \<and>
         (queue s = [] \<longrightarrow> \<not> isProcessing (flashCallback now k' cb s) \<and>
            timerDue (flashCallback now k' cb s) = timerDue s)"
proof (cases cb)
  case (OnUpdate t)
  then show ?thesis using assms by (simp add: flashCallback_def Let_def)
next
  case (OnComplete json)
  let ?s1 = "s\<lparr>history := updateRecord (item_id (item (runs s ! k')))
                 (\<lambda>h. h\<lparr>flash := (flash h)\<lparr>output := json,
                                            durationMs := now - flashStart (runs s ! k'),
                                            status := Completed,
                                            logs := [''Flash: Rapid Merge Complete.'']\<rparr>\<rparr>)
                 (history s),
               runs := (runs s)[k' := (runs s ! k')\<lparr>flashRes := json, flashSettled := True\<rparr>]\<rparr>"
  have eq: "flashCallback now k' cb s = pathSettled now k' ?s1"
    by (simp add: flashCallback_def OnComplete Let_def)
  have "k < length (runs ?s1)" "draining (runs ?s1 ! k)"
    using assms(1,2) by (cases "k' = k"; simp add: draining_def)+
  from ret_pathSettled [OF this, of now k'] assms(3) show ?thesis
    unfolding eq by simp
next
  case (OnError err)
  let ?s1 = "s\<lparr>history := updateRecord (item_id (item (runs s ! k')))
                 (\<lambda>h. h\<lparr>flash := (flash h)\<lparr>status := Error, logs := [err]\<rparr>\<rparr>) (history s),
               runs := (runs s)[k' := (runs s ! k')\<lparr>flashSettled := True\<rparr>]\<rparr>"
  have eq: "flashCallback now k' cb s = pathSettled now k' ?s1"
    by (simp add: flashCallback_def OnError Let_def)
  have "k < length (runs ?s1)" "draining (runs ?s1 ! k)"
    using assms(1,2) by (cases "k' = k"; simp add: draining_def)+
  from ret_pathSettled [OF this, of now k'] assms(3) show ?thesis
    unfolding eq by simp
qed

lemma ret_proCallback:
  assumes "k < length (runs s)" and "draining (runs s ! k)"
    and "\<not> draining (runs (proCallback now k' cb s) ! k)"
  shows "queue (proCallback now k' cb s) = queue s \<and>
         (queue s \<noteq> [] \<longrightarrow> timerDue (proCallback now k' cb s) = Some (now + 1500) \<and>
            isProcessing (proCallback now k' cb s) = isProcessing s) \<and>
         (queue s = [] \<longrightarrow> \<not> isProcessing (proCallback now k' cb s) \<and>
            timerDue (proCallback now k' cb s) = timerDue s)"
proof (cases cb)
  case (OnUpdate t)
  then show ?thesis using assms by (simp add: proCallback_def Let_def)
next
  case (OnComplete json)
  let ?s1 = "s\<lparr>history := updateRecord (item_id (item (runs s ! k')))
                 (\<lambda>h. h\<lparr>pro := (pro h)\<lparr>output := json,
                                        durationMs := now - proStart (runs s ! k'),
                                        status := Completed,
                                        logs := [''Pro: Deep reasoning complete.'']\<rparr>\<rparr>)
                 (history s),
               runs := (runs s)[k' := (runs s ! k')\<lparr>proRes := json, proSettled := True\<rparr>]\<rparr>"
  have eq: "proCallback now k' cb s = pathSettled now k' ?s1"
    by (simp add: proCallback_def OnComplete Let_def)
  have "k < length (runs ?s1)" "draining (runs ?s1 ! k)"
    using assms(1,2) by (cases "k' = k"; simp add: draining_def)+
  from ret_pathSettled [OF this, of now k'] assms(3) show ?thesis
    unfolding eq by simp
next
  case (OnError err)
  let ?s1 = "s\<lparr>history := updateRecord (item_id (item (runs s ! k')))
                 (\<lambda>h. h\<lparr>pro := (pro h)\<lparr>status := Error, logs := [err]\<rparr>\<rparr>) (history s),
               runs := (runs s)[k' := (runs s ! k')\<lparr>proSettled := True\<rparr>]\<rparr>"
  have eq: "proCallback now k' cb s = pathSettled now k' ?s1"
    by (simp add: proCallback_def OnError Let_def)
  have "k < length (runs ?s1)" "draining (runs ?s1 ! k)"
    using assms(1,2) by (cases "k' = k"; simp add: draining_def)+
  from ret_pathSettled [OF this, of now k'] assms(3) show ?thesis
    unfolding eq by simp
qed

lemma ret_consolidateSettled:
  assumes "k < length (runs s)" and "draining (runs s ! k)"
    and "\<not> draining (runs (consolidateSettled now k' res s) ! k)"
  shows "queue (consolidateSettled now k' res s) = queue s \<and>
         (queue s \<noteq> [] \<longrightarrow> timerDue (consolidateSettled now k' res s) = Some (now + 1500) \<and>
            isProcessing (consolidateSettled now k' res s) = isProcessing s) \<and>
         (queue s = [] \<longrightarrow> \<not> isProcessing (consolidateSettled now k' res s) \<and>
            timerDue (consolidateSettled now k' res s) = timerDue s)"
proof (cases "k' = k")
  case True
  then show ?thesis
    using assms
    by (auto simp: consolidateSettled_def Let_def draining_def afterExecute_def split: if_splits)
next
  case False
  then have "runs (consolidateSettled now k' res s) ! k = runs s ! k"
    by (simp add: consolidateSettled_def Let_def)
  then show ?thesis using assms by simp
qed

lemma ret_step:
  assumes "k < length (runs s)" and "draining (runs s ! k)"
    and "\<not> draining (runs (step now e s) ! k)"
  shows "queue (step now e s) = queue s \<and>
         (queue s \<noteq> [] \<longrightarrow> timerDue (step now e s) = Some (now + 1500) \<and>
            isProcessing (step now e s) = isProcessing s) \<and>
         (queue s = [] \<longrightarrow> \<not> isProcessing (step now e s) \<and>
            timerDue (step now e s) = timerDue s)"
proof (cases e)
  case ProcessQueue
  then show ?thesis
    using assms
    by (auto simp: processQueue_def processNext_def executeItemProcessing_def nth_append
        split: list.splits if_splits)
next
  case TimerFired
  then show ?thesis
    using assms
    by (auto simp: processNext_def executeItemProcessing_def nth_append
        split: list.splits option.splits if_splits)
next
  case (HandleRetry i)
  then show ?thesis
    using assms
    by (auto simp: handleRetry_def executeItemProcessing_def nth_append split: option.splits)
next
  case (SummaryResolved k' t)
  then show ?thesis
    using assms
    by (auto simp: summaryResolved_def Let_def nth_list_update draining_def split: if_splits)
next
  case (SummaryRejected k' t)
  then show ?thesis
    using assms
    by (auto simp: summaryRejected_def nth_list_update draining_def split: if_splits)
next
  case (FlashCallback k' cb)
  then show ?thesis
    using assms ret_flashCallback [of k s now k' cb] by (simp split: if_splits)
next
  case (ProCallback k' cb)
  then show ?thesis
    using assms ret_proCallback [of k s now k' cb] by (simp split: if_splits)
next
  case (ConsolidateSettled k' res)
  then show ?thesis
    using assms ret_consolidateSettled [of k s now k' res] by (simp split: if_splits)
qed (use assms in simp_all)

lemma sf_in_flight:
  assumes "single_flight s" and "k < length (runs s)" and "draining (runs s ! k)"
  shows "isProcessing s \<and> timerDue s = None"
proof -
  have "runs s ! k \<in> set (filter draining (runs s))"
    using assms(2,3) by simp
  then have "filter draining (runs s) \<noteq> []"
    by (metis empty_iff list.set(1))
  then show ?thesis
    using assms(1) by (auto simp: single_flight_def split: if_splits)
qed

lemma idle_pathSettled:
  assumes "\<not> fromQueue (runs s ! k)"
  shows "timerDue (pathSettled now k s) = timerDue s \<and>
         isProcessing (pathSettled now k s) = isProcessing s"
  using assms by (simp add: pathSettled_def afterPromiseAll_def Let_def afterExecute_def)

lemma idle_flashCallback:
  assumes "k < length (runs s)" and "\<not> fromQueue (runs s ! k)"
  shows "timerDue (flashCallback now k cb s) = timerDue s \<and>
         isProcessing (flashCallback now k cb s) = isProcessing s"
  using assms by (cases cb) (simp_all add: flashCallback_def Let_def idle_pathSettled)

lemma idle_proCallback:
  assumes "k < length (runs s)" and "\<not> fromQueue (runs s ! k)"
  shows "timerDue (proCallback now k cb s) = timerDue s \<and>
         isProcessing (proCallback now k cb s) = isProcessing s"
  using assms by (cases cb) (simp_all add: proCallback_def Let_def idle_pathSettled)

lemma idle_consolidateSettled:
  assumes "\<not> fromQueue (runs s ! k)"
  shows "timerDue (consolidateSettled now k res s) = timerDue s \<and>
         isProcessing (consolidateSettled now k res s) = isProcessing s"
  using assms by (simp add: consolidateSettled_def Let_def afterExecute_def)

lemma timer_kept:
  assumes "single_flight s" and "timerDue s = Some due"
    and "\<not> (e = TimerFired \<and> due \<le> now)"
  shows "timerDue (step now e s) = Some due \<and> isProcessing (step now e s)"
proof -
  have busy: "isProcessing s" and idle: "filter draining (runs s) = []"
    using assms(1,2) by (auto simp: single_flight_def split: if_splits)
  have none: "\<not> draining (runs s ! k)" if "k < length (runs s)" for k
  proof
    assume "draining (runs s ! k)"
    then have "runs s ! k \<in> set (filter draining (runs s))"
      using that by simp
    then show False using idle by simp
  qed
  show ?thesis
  proof (cases e)
    case ProcessQueue
    then show ?thesis using busy assms(2) by (simp add: processQueue_def)
  next
    case TimerFired
    then show ?thesis using busy assms(2,3) by simp
  next
    case (HandleRetry i)
    then show ?thesis
      using busy assms(2)
      by (simp add: handleRetry_def executeItemProcessing_def split: option.splits)
  next
    case (SummaryResolved k t)
    then show ?thesis using busy assms(2) by (simp add: summaryResolved_def Let_def)
  next
    case (SummaryRejected k t)
    then show ?thesis using busy assms(2) by (simp add: summaryRejected_def)
  next
    case (FlashCallback k cb)
    show ?thesis
    proof (cases "k < length (runs s) \<and> phase (runs s ! k) = AwaitingPaths \<and>
        \<not> flashSettled (runs s ! k)")
      case True
      then have "\<not> fromQueue (runs s ! k)"
        using none [of k] by (simp add: draining_def)
      then show ?thesis
        using True FlashCallback busy assms(2) idle_flashCallback [of k s now cb] by simp
    next
      case False
      then show ?thesis using FlashCallback busy assms(2) by auto
    qed
  next
    case (ProCallback k cb)
    show ?thesis
    proof (cases "k < length (runs s) \<and> phase (runs s ! k) = AwaitingPaths \<and>
        \<not> proSettled (runs s ! k)")
      case True
      then have "\<not> fromQueue (runs s ! k)"
        using none [of k] by (simp add: draining_def)
      then show ?thesis
        using True ProCallback busy assms(2) idle_proCallback [of k s now cb] by simp
    next
      case False
      then show ?thesis using ProCallback busy assms(2) by auto
    qed
  next
    case (ConsolidateSettled k res)
    show ?thesis
    proof (cases "k < length (runs s) \<and> phase (runs s ! k) = AwaitingSynthesis")
      case True
      then have "\<not> fromQueue (runs s ! k)"
        using none [of k] by (simp add: draining_def)
      then show ?thesis
        using True ConsolidateSettled busy assms(2) idle_consolidateSettled [of s k now res]
        by simp
    next
      case False
      then show ?thesis using ConsolidateSettled busy assms(2) by auto
    qed
  qed (use busy assms(2) in simp_all)
qed

text \<open>
  C2. In every state the component reaches from mounting:

  \<^item> \<^verbatim>\<open>processQueue\<close> changes nothing when a drain is running or the queue is empty;
  \<^item> as long as neither the queue nor the history is cleared, the inputs of the history
    records followed by the queue are the enqueued items in enqueue order;
  \<^item> at most one invocation of the orchestrator made from the queue is in flight;
  \<^item> when the drain takes the head item (a call of \<^verbatim>\<open>processQueue\<close> while no drain
    runs, or the firing of the inter-item timer once it is due), no such invocation is in
    flight, the head leaves the queue, its record is appended at the end of the history,
    and only then is the orchestrator invoked on it; the drain is then running and no
    timer is outstanding;
  \<^item> no other event invokes the orchestrator from the queue, takes an item off the queue
    or appends a record;
  \<^item> when an event makes an invocation from the queue return, the queue is as before;
    if it is not empty the drain stays running and
    \<^verbatim>\<open>setTimeout(processNext, 1500)\<close> is outstanding, due 1500 ms after that moment;
    if it is empty the drain stops and no timer is outstanding;
  \<^item> while a timer is outstanding, every event other than its firing when due leaves it
    outstanding with the same due time, leaves the drain running and invokes nothing
    from the queue; in particular nothing is taken before the 1500 ms have passed;
  \<^item> when the timer fires and the queue is empty, the drain stops.
\<close>

theorem queue_drains_fifo_single_flight:
  "(isProcessing (exec evs (initial q m)) \<or> queue (exec evs (initial q m)) = [] \<longrightarrow>
      step now ProcessQueue (exec evs (initial q m)) = exec evs (initial q m)) \<and>
   ((\<forall>te \<in> set evs. snd te \<noteq> ClearQueue \<and> snd te \<noteq> ClearHistory) \<longrightarrow>
      map input (history (exec evs (initial q m))) @ queue (exec evs (initial q m)) =
        q @ enqueued evs) \<and>
   length (filter draining (runs (exec evs (initial q m)))) \<le> 1 \<and>
   (queue (exec evs (initial q m)) = itm # rest \<and> takes_head now e (exec evs (initial q m)) \<longrightarrow>
      filter draining (runs (exec evs (initial q m))) = [] \<and>
      queue (step now e (exec evs (initial q m))) = rest \<and>
      history (step now e (exec evs (initial q m))) =
        history (exec evs (initial q m)) @
          [newEntry itm (drainMode (step now e (exec evs (initial q m))))] \<and>
      runs (step now e (exec evs (initial q m))) =
        runs (exec evs (initial q m)) @ [last (runs (step now e (exec evs (initial q m))))] \<and>
      item (last (runs (step now e (exec evs (initial q m))))) = itm \<and>
      fromQueue (last (runs (step now e (exec evs (initial q m))))) \<and>
      phase (last (runs (step now e (exec evs (initial q m))))) = AwaitingPaths \<and>
      isProcessing (step now e (exec evs (initial q m))) \<and>
      timerDue (step now e (exec evs (initial q m))) = None) \<and>
   (\<not> takes_head now e (exec evs (initial q m)) \<or> queue (exec evs (initial q m)) = [] \<longrightarrow>
      length (filter fromQueue (runs (step now e (exec evs (initial q m))))) =
        length (filter fromQueue (runs (exec evs (initial q m)))) \<and>
      (e \<noteq> ClearQueue \<and> (\<forall>newData. e \<noteq> AddToQueue newData) \<longrightarrow>
         queue (step now e (exec evs (initial q m))) = queue (exec evs (initial q m))) \<and>
      length (history (step now e (exec evs (initial q m)))) \<le>
        length (history (exec evs (initial q m)))) \<and>
   (k < length (runs (exec evs (initial q m))) \<and> draining (runs (exec evs (initial q m)) ! k) \<and>
    \<not> draining (runs (step now e (exec evs (initial q m))) ! k) \<longrightarrow>
      queue (step now e (exec evs (initial q m))) = queue (exec evs (initial q m)) \<and>
      (queue (exec evs (initial q m)) \<noteq> [] \<longrightarrow>
         isProcessing (step now e (exec evs (initial q m))) \<and>
         timerDue (step now e (exec evs (initial q m))) = Some (now + 1500)) \<and>
      (queue (exec evs (initial q m)) = [] \<longrightarrow>
         \<not> isProcessing (step now e (exec evs (initial q m))) \<and>
         timerDue (step now e (exec evs (initial q m))) = None)) \<and>
   (timerDue (exec evs (initial q m)) = Some due \<and> \<not> (e = TimerFired \<and> due \<le> now) \<longrightarrow>
      timerDue (step now e (exec evs (initial q m))) = Some due \<and>
      isProcessing (step now e (exec evs (initial q m))) \<and>
      length (filter fromQueue (runs (step now e (exec evs (initial q m))))) =
        length (filter fromQueue (runs (exec evs (initial q m))))) \<and>
   (timerDue (exec evs (initial q m)) = Some due \<and> due \<le> now \<and>
    queue (exec evs (initial q m)) = [] \<longrightarrow>
      \<not> isProcessing (step now TimerFired (exec evs (initial q m))) \<and>
      timerDue (step now TimerFired (exec evs (initial q m))) = None)"
proof -
  let ?S = "exec evs (initial q m)"
  have sf: "single_flight ?S"
    by (rule sf_exec) (simp add: single_flight_def initial_def)
  have noop: "isProcessing ?S \<or> queue ?S = [] \<longrightarrow> step now ProcessQueue ?S = ?S"
    by (auto simp: processQueue_def)
  have fifo: "(\<forall>te \<in> set evs. snd te \<noteq> ClearQueue \<and> snd te \<noteq> ClearHistory) \<longrightarrow>
      map input (history ?S) @ queue ?S = q @ enqueued evs"
  proof
    assume "\<forall>te \<in> set evs. snd te \<noteq> ClearQueue \<and> snd te \<noteq> ClearHistory"
    from fifo_exec [OF this, of "initial q m"] show
      "map input (history ?S) @ queue ?S = q @ enqueued evs"
      by (simp add: initial_def)
  qed
  have one: "length (filter draining (runs ?S)) \<le> 1"
    using sf by (rule sf_at_most_one)
  have take: "queue ?S = itm # rest \<and> takes_head now e ?S \<longrightarrow>
      filter draining (runs ?S) = [] \<and>
      queue (step now e ?S) = rest \<and>
      history (step now e ?S) = history ?S @ [newEntry itm (drainMode (step now e ?S))] \<and>
      runs (step now e ?S) = runs ?S @ [last (runs (step now e ?S))] \<and>
      item (last (runs (step now e ?S))) = itm \<and>
      fromQueue (last (runs (step now e ?S))) \<and>
      phase (last (runs (step now e ?S))) = AwaitingPaths \<and>
      isProcessing (step now e ?S) \<and>
      timerDue (step now e ?S) = None"
  proof
    assume asm: "queue ?S = itm # rest \<and> takes_head now e ?S"
    then have head: "queue ?S = itm # rest" and trigger: "takes_head now e ?S"
      by simp_all
    from trigger consider
      (start) "e = ProcessQueue" "\<not> isProcessing ?S"
      | (timer) d where "e = TimerFired" "timerDue ?S = Some d" "d \<le> now"
      by (auto simp: takes_head_def split: option.splits)
    then show "filter draining (runs ?S) = [] \<and>
      queue (step now e ?S) = rest \<and>
      history (step now e ?S) = history ?S @ [newEntry itm (drainMode (step now e ?S))] \<and>
      runs (step now e ?S) = runs ?S @ [last (runs (step now e ?S))] \<and>
      item (last (runs (step now e ?S))) = itm \<and>
      fromQueue (last (runs (step now e ?S))) \<and>
      phase (last (runs (step now e ?S))) = AwaitingPaths \<and>
      isProcessing (step now e ?S) \<and>
      timerDue (step now e ?S) = None"
    proof cases
      case start
      have idle: "filter draining (runs ?S) = []" and quiet: "timerDue ?S = None"
        using sf start(2) by (auto simp: single_flight_def split: if_splits)
      have "queue (?S\<lparr>isProcessing := True, drainMode := selectedMode ?S\<rparr>) = itm # rest"
        using head by simp
      from processNext_pops [OF this, of now] start head idle quiet show ?thesis
        by (simp add: processQueue_def processNext_def executeItemProcessing_def)
    next
      case timer
      have idle: "filter draining (runs ?S) = []" and busy: "isProcessing ?S"
        using sf timer(2) by (auto simp: single_flight_def split: if_splits)
      have "queue (?S\<lparr>timerDue := None\<rparr>) = itm # rest"
        using head by simp
      from processNext_pops [OF this, of now] timer head idle busy show ?thesis
        by (simp add: processNext_def executeItemProcessing_def)
    qed
  qed
  have only: "\<not> takes_head now e ?S \<or> queue ?S = [] \<longrightarrow>
      length (filter fromQueue (runs (step now e ?S))) = length (filter fromQueue (runs ?S)) \<and>
      (e \<noteq> ClearQueue \<and> (\<forall>newData. e \<noteq> AddToQueue newData) \<longrightarrow>
         queue (step now e ?S) = queue ?S) \<and>
      length (history (step now e ?S)) \<le> length (history ?S)"
    using only_takes_head [of now e ?S] by blast
  have arm: "k < length (runs ?S) \<and> draining (runs ?S ! k) \<and>
      \<not> draining (runs (step now e ?S) ! k) \<longrightarrow>
      queue (step now e ?S) = queue ?S \<and>
      (queue ?S \<noteq> [] \<longrightarrow>
         isProcessing (step now e ?S) \<and> timerDue (step now e ?S) = Some (now + 1500)) \<and>
      (queue ?S = [] \<longrightarrow>
         \<not> isProcessing (step now e ?S) \<and> timerDue (step now e ?S) = None)"
  proof
    assume asm: "k < length (runs ?S) \<and> draining (runs ?S ! k) \<and>
      \<not> draining (runs (step now e ?S) ! k)"
    then have flight: "isProcessing ?S \<and> timerDue ?S = None"
      using sf_in_flight [OF sf, of k] by blast
    from asm have a1: "k < length (runs ?S)" and a2: "draining (runs ?S ! k)"
      and a3: "\<not> draining (runs (step now e ?S) ! k)"
      by simp_all
    have "queue (step now e ?S) = queue ?S \<and>
         (queue ?S \<noteq> [] \<longrightarrow> timerDue (step now e ?S) = Some (now + 1500) \<and>
            isProcessing (step now e ?S) = isProcessing ?S) \<and>
         (queue ?S = [] \<longrightarrow> \<not> isProcessing (step now e ?S) \<and>
            timerDue (step now e ?S) = timerDue ?S)"
      by (rule ret_step [OF a1 a2 a3])
    then show "queue (step now e ?S) = queue ?S \<and>
      (queue ?S \<noteq> [] \<longrightarrow>
         isProcessing (step now e ?S) \<and> timerDue (step now e ?S) = Some (now + 1500)) \<and>
      (queue ?S = [] \<longrightarrow>
         \<not> isProcessing (step now e ?S) \<and> timerDue (step now e ?S) = None)"
      using flight by simp
  qed
  have wait: "timerDue ?S = Some due \<and> \<not> (e = TimerFired \<and> due \<le> now) \<longrightarrow>
      timerDue (step now e ?S) = Some due \<and> isProcessing (step now e ?S) \<and>
      length (filter fromQueue (runs (step now e ?S))) = length (filter fromQueue (runs ?S))"
  proof
    assume asm: "timerDue ?S = Some due \<and> \<not> (e = TimerFired \<and> due \<le> now)"
    then have kept: "timerDue (step now e ?S) = Some due \<and> isProcessing (step now e ?S)"
      using timer_kept [OF sf, of due e now] by simp
    have busy: "isProcessing ?S"
      using sf asm by (auto simp: single_flight_def split: if_splits)
    have "\<not> takes_head now e ?S"
      using asm busy by (auto simp: takes_head_def)
    then have "length (filter fromQueue (runs (step now e ?S))) =
        length (filter fromQueue (runs ?S))"
      using only_takes_head [of now e ?S] by blast
    then show "timerDue (step now e ?S) = Some due \<and> isProcessing (step now e ?S) \<and>
      length (filter fromQueue (runs (step now e ?S))) = length (filter fromQueue (runs ?S))"
      using kept by simp
  qed
  have stop: "timerDue ?S = Some due \<and> due \<le> now \<and> queue ?S = [] \<longrightarrow>
      \<not> isProcessing (step now TimerFired ?S) \<and> timerDue (step now TimerFired ?S) = None"
    by (simp add: processNext_def)
  show ?thesis
    by (intro conjI noop fifo one take only arm wait stop)
qed

theorem queue_drains_fifo_single_flight_witness:
  "isProcessing (exec fifo_trace (initial [sample_item, second_item] Both)) \<and>
   step 3004 ProcessQueue (exec fifo_trace (initial [sample_item, second_item] Both)) =
     exec fifo_trace (initial [sample_item, second_item] Both) \<and>
   list_all (\<lambda>te. snd te \<noteq> ClearQueue \<and> snd te \<noteq> ClearHistory) fifo_trace \<and>
   map input (history (exec fifo_trace (initial [sample_item, second_item] Both))) @
     queue (exec fifo_trace (initial [sample_item, second_item] Both)) =
     [sample_item, second_item, third_item] \<and>
   length (filter draining (runs (exec fifo_trace (initial [sample_item, second_item] Both)))) \<le> 1 \<and>
   queue (exec fifo_trace (initial [sample_item, second_item] Both)) = [third_item] \<and>
   draining (runs (exec fifo_prefix (initial [sample_item, second_item] Both)) ! 1) \<and>
   \<not> draining (runs (exec fifo_trace (initial [sample_item, second_item] Both)) ! 1) \<and>
   timerDue (exec fifo_trace (initial [sample_item, second_item] Both)) = Some 3005 \<and>
   timerDue (step 3004 TimerFired (exec fifo_trace (initial [sample_item, second_item] Both))) =
     Some 3005 \<and>
   length (filter fromQueue (runs (step 3004 TimerFired
     (exec fifo_trace (initial [sample_item, second_item] Both))))) = 2 \<and>
   takes_head 3005 TimerFired (exec fifo_trace (initial [sample_item, second_item] Both)) \<and>
   queue (step 3005 TimerFired (exec fifo_trace (initial [sample_item, second_item] Both))) = [] \<and>
   map input (history (step 3005 TimerFired
     (exec fifo_trace (initial [sample_item, second_item] Both)))) =
     [sample_item, second_item, third_item] \<and>
   item (last (runs (step 3005 TimerFired
     (exec fifo_trace (initial [sample_item, second_item] Both))))) = third_item"
proof -
  let ?P = "exec fifo_prefix (initial [sample_item, second_item] Both)"
  let ?S = "exec fifo_trace (initial [sample_item, second_item] Both)"
  have ids: "item_id sample_item = ''A1''" "item_id second_item = ''B2''"
    by (simp_all add: sample_item_def second_item_def)
  have last_step: "?S = step 1505 (ProCallback 1 (OnError ''Pro Engine Fault: 503'')) ?P"
    by (simp add: fifo_trace_def fifo_prefix_def)
  have before: "1 < length (runs ?P)" "draining (runs ?P ! 1)" "queue ?P \<noteq> []"
    by (simp_all add: fifo_prefix_def model_defs ids draining_def)
  have busy: "isProcessing ?S"
    and head: "queue ?S = third_item # []"
    and inputs: "map input (history ?S) = [sample_item, second_item]"
    and returned: "\<not> draining (runs ?S ! 1)"
    and count: "length (filter fromQueue (runs ?S)) = 2"
    by (simp_all add: fifo_trace_def fifo_prefix_def model_defs ids draining_def)
  have kept: "\<forall>te \<in> set fifo_trace. snd te \<noteq> ClearQueue \<and> snd te \<noteq> ClearHistory"
    by (simp add: fifo_trace_def fifo_prefix_def)
  have added: "enqueued fifo_trace = [third_item]"
    by (simp add: fifo_trace_def fifo_prefix_def)
  note arm = queue_drains_fifo_single_flight
    [of fifo_prefix "[sample_item, second_item]" Both 1505 third_item "[]"
       "ProCallback 1 (OnError ''Pro Engine Fault: 503'')" 1 0,
     THEN conjunct2, THEN conjunct2, THEN conjunct2, THEN conjunct2, THEN conjunct2,
     THEN conjunct1, unfolded last_step [symmetric]]
  have "queue ?P \<noteq> [] \<longrightarrow> isProcessing ?S \<and> timerDue ?S = Some (1505 + 1500)"
    using arm before(1,2) returned by blast
  then have due: "timerDue ?S = Some 3005"
    using before(3) by simp
  note early = queue_drains_fifo_single_flight
    [of fifo_trace "[sample_item, second_item]" Both 3004 third_item "[]" TimerFired 0 3005]
  note later = queue_drains_fifo_single_flight
    [of fifo_trace "[sample_item, second_item]" Both 3005 third_item "[]" TimerFired 0 3005]
  have a: "step 3004 ProcessQueue ?S = ?S"
    using early [THEN conjunct1] busy by blast
  have b: "map input (history ?S) @ queue ?S = [sample_item, second_item, third_item]"
    using early [THEN conjunct2, THEN conjunct1] kept added by simp
  have c: "length (filter draining (runs ?S)) \<le> 1"
    by (rule early [THEN conjunct2, THEN conjunct2, THEN conjunct1])
  have "timerDue (step 3004 TimerFired ?S) = Some 3005 \<and>
      isProcessing (step 3004 TimerFired ?S) \<and>
      length (filter fromQueue (runs (step 3004 TimerFired ?S))) =
        length (filter fromQueue (runs ?S))"
    using early [THEN conjunct2, THEN conjunct2, THEN conjunct2, THEN conjunct2,
      THEN conjunct2, THEN conjunct2, THEN conjunct1] due
    by simp
  then have w: "timerDue (step 3004 TimerFired ?S) = Some 3005"
    "length (filter fromQueue (runs (step 3004 TimerFired ?S))) = 2"
    using count by simp_all
  have trigger: "takes_head 3005 TimerFired ?S"
    using due by (simp add: takes_head_def)
  have d: "queue (step 3005 TimerFired ?S) = []"
    "history (step 3005 TimerFired ?S) =
       history ?S @ [newEntry third_item (drainMode (step 3005 TimerFired ?S))]"
    "item (last (runs (step 3005 TimerFired ?S))) = third_item"
    using later [THEN conjunct2, THEN conjunct2, THEN conjunct2, THEN conjunct1] head trigger
    by blast+
  have e: "map input (history (step 3005 TimerFired ?S)) = [sample_item, second_item, third_item]"
    unfolding d(2) using inputs by (simp add: newEntry_def)
  have f: "list_all (\<lambda>te. snd te \<noteq> ClearQueue \<and> snd te \<noteq> ClearHistory) fifo_trace"
    by (simp add: fifo_trace_def fifo_prefix_def)
  show ?thesis
    using busy a f b c head before(2) returned due w trigger d(1) e d(3) by simp
qed

section \<open>Consolidation\<close>

lemma ok_pathSettled:
  assumes "\<forall>j < length (runs s). j \<noteq> k \<longrightarrow> run_ok (runs s ! j)"
    and "k < length (runs s)"
    and "phase (runs s ! k) = AwaitingPaths" and "synthCalls (runs s ! k) = 0"
    and "\<not> flashSettled (runs s ! k) \<longrightarrow> flashRes (runs s ! k) = JNull"
    and "\<not> proSettled (runs s ! k) \<longrightarrow> proRes (runs s ! k) = JNull"
  shows "runs_ok (pathSettled now k s)"
  unfolding runs_ok_def
proof (intro allI impI)
  fix j
  assume j: "j < length (runs (pathSettled now k s))"
  show "run_ok (runs (pathSettled now k s) ! j)"
  proof (cases "j = k")
    case False
    then have "runs (pathSettled now k s) ! j = runs s ! j"
      by (simp add: pathSettled_def afterPromiseAll_def Let_def)
    moreover have "j < length (runs s)"
      using j by (simp add: pathSettled_def afterPromiseAll_def Let_def split: if_splits)
    ultimately show ?thesis using assms(1) False by simp
  next
    case True
    then show ?thesis
      using assms(2-6)
      by (auto simp: pathSettled_def afterPromiseAll_def Let_def run_ok_def)
  qed
qed

lemma runs_ok_update:
  assumes "runs_ok s" and "runs s' = (runs s)[k := r']" and "run_ok r'"
  shows "runs_ok s'"
  using assms by (cases "k < length (runs s)") (auto simp: runs_ok_def nth_list_update)

lemma runs_ok_append:
  assumes "runs_ok s" and "runs s' = runs s @ [r']" and "run_ok r'"
  shows "runs_ok s'"
  using assms by (auto simp: runs_ok_def nth_append less_Suc_eq)

lemma runs_ok_same: "runs_ok s \<Longrightarrow> runs s' = runs s \<Longrightarrow> runs_ok s'"
  by (simp add: runs_ok_def)

lemma ok_flashCallback:
  assumes "runs_ok s" and "k < length (runs s)"
    and "phase (runs s ! k) = AwaitingPaths" and "\<not> flashSettled (runs s ! k)"
  shows "runs_ok (flashCallback now k cb s)"
proof -
  have rk: "run_ok (runs s ! k)"
    using assms(1,2) by (simp add: runs_ok_def)
  have settle: "runs_ok (pathSettled now k (s\<lparr>history := hs, runs := (runs s)[k := r1]\<rparr>))"
    if "phase r1 = AwaitingPaths" and "synthCalls r1 = 0"
      and "\<not> flashSettled r1 \<longrightarrow> flashRes r1 = JNull"
      and "\<not> proSettled r1 \<longrightarrow> proRes r1 = JNull" for hs r1
    by (rule ok_pathSettled) (use assms(1,2) that in \<open>auto simp: runs_ok_def\<close>)
  show ?thesis
  proof (cases cb)
    case (OnUpdate t)
    then show ?thesis
      using assms(1) by (auto intro: runs_ok_same simp: flashCallback_def Let_def)
  next
    case (OnComplete json)
    have "runs_ok (pathSettled now k (s\<lparr>history := hs,
            runs := (runs s)[k := (runs s ! k)\<lparr>flashRes := json, flashSettled := True\<rparr>]\<rparr>))" for hs
      by (rule settle) (use rk assms(3) in \<open>auto simp: run_ok_def\<close>)
    then show ?thesis
      by (simp add: flashCallback_def OnComplete Let_def)
  next
    case (OnError err)
    have "runs_ok (pathSettled now k (s\<lparr>history := hs,
            runs := (runs s)[k := (runs s ! k)\<lparr>flashSettled := True\<rparr>]\<rparr>))" for hs
      by (rule settle) (use rk assms(3,4) in \<open>auto simp: run_ok_def\<close>)
    then show ?thesis
      by (simp add: flashCallback_def OnError Let_def)
  qed
qed

lemma ok_proCallback:
  assumes "runs_ok s" and "k < length (runs s)"
    and "phase (runs s ! k) = AwaitingPaths" and "\<not> proSettled (runs s ! k)"
  shows "runs_ok (proCallback now k cb s)"
proof -
  have rk: "run_ok (runs s ! k)"
    using assms(1,2) by (simp add: runs_ok_def)
  have settle: "runs_ok (pathSettled now k (s\<lparr>history := hs, runs := (runs s)[k := r1]\<rparr>))"
    if "phase r1 = AwaitingPaths" and "synthCalls r1 = 0"
      and "\<not> flashSettled r1 \<longrightarrow> flashRes r1 = JNull"
      and "\<not> proSettled r1 \<longrightarrow> proRes r1 = JNull" for hs r1
    by (rule ok_pathSettled) (use assms(1,2) that in \<open>auto simp: runs_ok_def\<close>)
  show ?thesis
  proof (cases cb)
    case (OnUpdate t)
    then show ?thesis
      using assms(1) by (auto intro: runs_ok_same simp: proCallback_def Let_def)
  next
    case (OnComplete json)
    have "runs_ok (pathSettled now k (s\<lparr>history := hs,
            runs := (runs s)[k := (runs s ! k)\<lparr>proRes := json, proSettled := True\<rparr>]\<rparr>))" for hs
      by (rule settle) (use rk assms(3) in \<open>auto simp: run_ok_def\<close>)
    then show ?thesis
      by (simp add: proCallback_def OnComplete Let_def)
  next
    case (OnError err)
    have "runs_ok (pathSettled now k (s\<lparr>history := hs,
            runs := (runs s)[k := (runs s ! k)\<lparr>proSettled := True\<rparr>]\<rparr>))" for hs
      by (rule settle) (use rk assms(3,4) in \<open>auto simp: run_ok_def\<close>)
    then show ?thesis
      by (simp add: proCallback_def OnError Let_def)
  qed
qed

lemma ok_consolidateSettled:
  assumes "runs_ok s" and "k < length (runs s)" and "phase (runs s ! k) = AwaitingSynthesis"
  shows "runs_ok (consolidateSettled now k res s)"
proof -
  have "run_ok (runs s ! k)"
    using assms(1,2) by (simp add: runs_ok_def)
  then have "run_ok ((runs s ! k)\<lparr>phase := Returned\<rparr>)"
    using assms(3) by (simp add: run_ok_def)
  then show ?thesis
    by (intro runs_ok_update [OF assms(1), where k = k and r' = "(runs s ! k)\<lparr>phase := Returned\<rparr>"])
      (simp_all add: consolidateSettled_def Let_def)
qed

lemma ok_summaryResolved:
  assumes "runs_ok s" and "k < length (runs s)"
  shows "runs_ok (summaryResolved k t s)"
proof -
  have "run_ok (runs s ! k)"
    using assms by (simp add: runs_ok_def)
  then have "run_ok ((runs s ! k)\<lparr>summaryPending := False\<rparr>)"
    by (auto simp: run_ok_def split: phase.splits)
  then show ?thesis
    by (intro runs_ok_update [OF assms(1), where k = k and
          r' = "(runs s ! k)\<lparr>summaryPending := False\<rparr>"])
      (simp_all add: summaryResolved_def Let_def)
qed

lemma ok_summaryRejected:
  assumes "runs_ok s" and "k < length (runs s)"
  shows "runs_ok (summaryRejected k e s)"
proof -
  have "run_ok (runs s ! k)"
    using assms by (simp add: runs_ok_def)
  then have "run_ok ((runs s ! k)\<lparr>summaryPending := False\<rparr>)"
    by (auto simp: run_ok_def split: phase.splits)
  then show ?thesis
    by (intro runs_ok_update [OF assms(1), where k = k and
          r' = "(runs s ! k)\<lparr>summaryPending := False\<rparr>"])
      (simp_all add: summaryRejected_def)
qed

lemma ok_executeItemProcessing:
  "runs_ok s \<Longrightarrow> runs_ok (executeItemProcessing now itm m fromQ s)"
  by (rule runs_ok_append [where r' = "last (runs (executeItemProcessing now itm m fromQ s))"])
    (cases m; auto simp: executeItemProcessing_def run_ok_def)+

lemma ok_handleRetry: "runs_ok s \<Longrightarrow> runs_ok (handleRetry now i s)"
  by (auto simp: handleRetry_def split: option.splits
      intro!: ok_executeItemProcessing intro: runs_ok_same)

lemma ok_processNext: "runs_ok s \<Longrightarrow> runs_ok (processNext now s)"
  by (auto simp: processNext_def split: list.splits
      intro!: ok_executeItemProcessing intro: runs_ok_same)

lemma ok_step:
  assumes "runs_ok s"
  shows "runs_ok (step now e s)"
proof (cases e)
  case ProcessQueue
  have "runs_ok (s\<lparr>isProcessing := True, drainMode := selectedMode s\<rparr>)"
    using assms by (simp add: runs_ok_def)
  then show ?thesis
    using assms by (simp add: ProcessQueue processQueue_def ok_processNext)
next
  case TimerFired
  have "runs_ok (s\<lparr>timerDue := None\<rparr>)"
    using assms by (simp add: runs_ok_def)
  then show ?thesis
    using assms by (simp add: TimerFired ok_processNext split: option.splits)
next
  case (AddToQueue newData)
  then show ?thesis using assms by (simp add: runs_ok_def)
next
  case ClearQueue
  then show ?thesis using assms by (simp add: runs_ok_def)
next
  case ClearHistory
  then show ?thesis using assms by (simp add: runs_ok_def)
next
  case (SetSelectedMode m)
  then show ?thesis using assms by (simp add: runs_ok_def)
next
  case (HandleRetry i)
  then show ?thesis using assms by (simp add: ok_handleRetry)
next
  case (SummaryResolved k t)
  then show ?thesis using assms by (simp add: ok_summaryResolved)
next
  case (SummaryRejected k t)
  then show ?thesis using assms by (simp add: ok_summaryRejected)
next
  case (FlashCallback k cb)
  then show ?thesis using assms by (simp add: ok_flashCallback)
next
  case (ProCallback k cb)
  then show ?thesis using assms by (simp add: ok_proCallback)
next
  case (ConsolidateSettled k res)
  then show ?thesis using assms by (simp add: ok_consolidateSettled)
qed

lemma ok_exec: "runs_ok s \<Longrightarrow> runs_ok (exec evs s)"
  by (induction evs arbitrary: s) (simp_all add: ok_step)

lemma map_updateRecord_same:
  "(\<And>h. g (f h) = g h) \<Longrightarrow> map g (updateRecord i f hs) = map g hs"
  by (simp add: updateRecord_def)

lemma flash_terminal_effect:
  assumes "k < length (runs s)" and "flashRes (runs s ! k) = JNull" and "terminal cb"
  shows "flashSettled (runs (flashCallback now k cb s) ! k) \<and>
         flashRes (runs (flashCallback now k cb s) ! k) =
           (case cb of OnComplete json \<Rightarrow> json | _ \<Rightarrow> JNull) \<and>
         (\<forall>h \<in> set (history (flashCallback now k cb s)).
            res_id h = item_id (item (runs s ! k)) \<longrightarrow>
            status (flash h) = (case cb of OnComplete json \<Rightarrow> Completed | _ \<Rightarrow> Error))"
  using assms
  by (cases cb)
    (auto simp: flashCallback_def pathSettled_def afterPromiseAll_def Let_def ball_updateRecord
      updateRecord_def)

lemma pro_terminal_effect:
  assumes "k < length (runs s)" and "proRes (runs s ! k) = JNull" and "terminal cb"
  shows "proSettled (runs (proCallback now k cb s) ! k) \<and>
         proRes (runs (proCallback now k cb s) ! k) =
           (case cb of OnComplete json \<Rightarrow> json | _ \<Rightarrow> JNull) \<and>
         (\<forall>h \<in> set (history (proCallback now k cb s)).
            res_id h = item_id (item (runs s ! k)) \<longrightarrow>
            status (pro h) = (case cb of OnComplete json \<Rightarrow> Completed | _ \<Rightarrow> Error))"
  using assms
  by (cases cb)
    (auto simp: proCallback_def pathSettled_def afterPromiseAll_def Let_def ball_updateRecord
      updateRecord_def)

lemma consolidate_settled_effect:
  assumes "k < length (runs s)"
  shows "phase (runs (consolidateSettled now k res s) ! k) = Returned \<and>
         synthCalls (runs (consolidateSettled now k res s) ! k) = synthCalls (runs s ! k) \<and>
         (\<forall>h \<in> set (history (consolidateSettled now k res s)).
            res_id h = item_id (item (runs s ! k)) \<longrightarrow>
            (\<exists>c. consolidated h = Some c \<and>
                 output c = (case res of Inr finalJson \<Rightarrow> finalJson | Inl err \<Rightarrow> JNull) \<and>
                 status c = (case res of Inr finalJson \<Rightarrow> Completed | Inl err \<Rightarrow> Error)))"
  using assms
  by (cases res) (auto simp: consolidateSettled_def Let_def updateRecord_def)

lemma flash_failed_keeps_consolidated:
  assumes "k < length (runs s)"
    and "\<not> truthy (flashRes (runs (flashCallback now k cb s) ! k)) \<or>
         \<not> truthy (proRes (runs (flashCallback now k cb s) ! k))"
  shows "map consolidated (history (flashCallback now k cb s)) = map consolidated (history s) \<and>
         synthCalls (runs (flashCallback now k cb s) ! k) = synthCalls (runs s ! k)"
  using assms
  by (cases cb)
    (auto simp: flashCallback_def pathSettled_def afterPromiseAll_def Let_def
      map_updateRecord_same split: if_splits)

lemma pro_failed_keeps_consolidated:
  assumes "k < length (runs s)"
    and "\<not> truthy (flashRes (runs (proCallback now k cb s) ! k)) \<or>
         \<not> truthy (proRes (runs (proCallback now k cb s) ! k))"
  shows "map consolidated (history (proCallback now k cb s)) = map consolidated (history s) \<and>
         synthCalls (runs (proCallback now k cb s) ! k) = synthCalls (runs s ! k)"
  using assms
  by (cases cb)
    (auto simp: proCallback_def pathSettled_def afterPromiseAll_def Let_def
      map_updateRecord_same split: if_splits)


text \<open>
  What the code does about consolidation, for any state reached by the component and any
  invocation of the orchestrator in it whose mode is Both. \<^verbatim>\<open>consolidateResults\<close> has
  been called at most once; not at all while \<^verbatim>\<open>Promise.all\<close> is awaited, which lasts
  only until both paths have settled; and after that it has been called once if and only if
  both result variables are truthy. A terminal callback settles its path: the completion
  callback stores the parsed value in the result variable and writes status
  \<^verbatim>\<open>completed\<close>; the failure callback writes status \<^verbatim>\<open>error\<close> and leaves the
  variable \<^verbatim>\<open>null\<close>. A path callback after which a result is not truthy calls nothing
  and leaves the consolidated field of every record as it was. When the call settles, the
  invocation returns and the consolidated entry of the item's record is \<^verbatim>\<open>completed\<close>
  (the call returned) or \<^verbatim>\<open>error\<close> (it threw).
\<close>

lemma consolidation_when_both_truthy:
  assumes "S = exec evs (initial q m)" and "k < length (runs S)" and "mode (runs S ! k) = Both"
  shows
   "synthCalls (runs S ! k) \<le> 1 \<and>
    (phase (runs S ! k) = AwaitingPaths \<longrightarrow>
       synthCalls (runs S ! k) = 0 \<and> \<not> (flashSettled (runs S ! k) \<and> proSettled (runs S ! k))) \<and>
    (phase (runs S ! k) \<noteq> AwaitingPaths \<longrightarrow>
       flashSettled (runs S ! k) \<and> proSettled (runs S ! k) \<and>
       (synthCalls (runs S ! k) = 1 \<longleftrightarrow> truthy (flashRes (runs S ! k)) \<and> truthy (proRes (runs S ! k)))) \<and>
    (phase (runs S ! k) = AwaitingPaths \<and> \<not> flashSettled (runs S ! k) \<and> terminal cb \<longrightarrow>
       flashSettled (runs (step now (FlashCallback k cb) S) ! k) \<and>
       flashRes (runs (step now (FlashCallback k cb) S) ! k) =
         (case cb of OnComplete json \<Rightarrow> json | _ \<Rightarrow> JNull) \<and>
       (\<forall>h \<in> set (history (step now (FlashCallback k cb) S)).
          res_id h = item_id (item (runs S ! k)) \<longrightarrow>
          status (flash h) = (case cb of OnComplete json \<Rightarrow> Completed | _ \<Rightarrow> Error))) \<and>
    (phase (runs S ! k) = AwaitingPaths \<and> \<not> proSettled (runs S ! k) \<and> terminal cb \<longrightarrow>
       proSettled (runs (step now (ProCallback k cb) S) ! k) \<and>
       proRes (runs (step now (ProCallback k cb) S) ! k) =
         (case cb of OnComplete json \<Rightarrow> json | _ \<Rightarrow> JNull) \<and>
       (\<forall>h \<in> set (history (step now (ProCallback k cb) S)).
          res_id h = item_id (item (runs S ! k)) \<longrightarrow>
          status (pro h) = (case cb of OnComplete json \<Rightarrow> Completed | _ \<Rightarrow> Error))) \<and>
    (\<not> truthy (flashRes (runs (step now (FlashCallback k cb) S) ! k)) \<or>
     \<not> truthy (proRes (runs (step now (FlashCallback k cb) S) ! k)) \<longrightarrow>
       synthCalls (runs (step now (FlashCallback k cb) S) ! k) = synthCalls (runs S ! k) \<and>
       map consolidated (history (step now (FlashCallback k cb) S)) = map consolidated (history S)) \<and>
    (\<not> truthy (flashRes (runs (step now (ProCallback k cb) S) ! k)) \<or>
     \<not> truthy (proRes (runs (step now (ProCallback k cb) S) ! k)) \<longrightarrow>
       synthCalls (runs (step now (ProCallback k cb) S) ! k) = synthCalls (runs S ! k) \<and>
       map consolidated (history (step now (ProCallback k cb) S)) = map consolidated (history S)) \<and>
    (phase (runs S ! k) = AwaitingSynthesis \<longrightarrow>
       phase (runs (step now (ConsolidateSettled k res) S) ! k) = Returned \<and>
       synthCalls (runs (step now (ConsolidateSettled k res) S) ! k) = 1 \<and>
       (\<forall>h \<in> set (history (step now (ConsolidateSettled k res) S)).
          res_id h = item_id (item (runs S ! k)) \<longrightarrow>
          (\<exists>c. consolidated h = Some c \<and>
               output c = (case res of Inr finalJson \<Rightarrow> finalJson | Inl err \<Rightarrow> JNull) \<and>
               status c = (case res of Inr finalJson \<Rightarrow> Completed | Inl err \<Rightarrow> Error))))"
proof -
  have "runs_ok (initial q m)"
    by (simp add: runs_ok_def initial_def)
  then have "runs_ok S"
    unfolding assms(1) by (rule ok_exec)
  then have rk: "run_ok (runs S ! k)"
    using assms(2) by (simp add: runs_ok_def)
  have once: "synthCalls (runs S ! k) \<le> 1"
    using rk by (auto simp: run_ok_def split: phase.splits)
  have waiting: "synthCalls (runs S ! k) = 0 \<and> \<not> (flashSettled (runs S ! k) \<and> proSettled (runs S ! k))"
    if "phase (runs S ! k) = AwaitingPaths"
    using rk that by (simp add: run_ok_def)
  have decided: "flashSettled (runs S ! k) \<and> proSettled (runs S ! k) \<and>
       (synthCalls (runs S ! k) = 1 \<longleftrightarrow> truthy (flashRes (runs S ! k)) \<and> truthy (proRes (runs S ! k)))"
    if "phase (runs S ! k) \<noteq> AwaitingPaths"
    using rk that assms(3) by (cases "phase (runs S ! k)") (auto simp: run_ok_def)
  have fast: "flashSettled (runs (step now (FlashCallback k cb) S) ! k) \<and>
       flashRes (runs (step now (FlashCallback k cb) S) ! k) =
         (case cb of OnComplete json \<Rightarrow> json | _ \<Rightarrow> JNull) \<and>
       (\<forall>h \<in> set (history (step now (FlashCallback k cb) S)).
          res_id h = item_id (item (runs S ! k)) \<longrightarrow>
          status (flash h) = (case cb of OnComplete json \<Rightarrow> Completed | _ \<Rightarrow> Error))"
    if "phase (runs S ! k) = AwaitingPaths \<and> \<not> flashSettled (runs S ! k) \<and> terminal cb"
  proof -
    have "flashRes (runs S ! k) = JNull"
      using rk that by (simp add: run_ok_def)
    from flash_terminal_effect [OF assms(2) this, of cb now] that assms(2)
    show ?thesis by simp
  qed
  have deep: "proSettled (runs (step now (ProCallback k cb) S) ! k) \<and>
       proRes (runs (step now (ProCallback k cb) S) ! k) =
         (case cb of OnComplete json \<Rightarrow> json | _ \<Rightarrow> JNull) \<and>
       (\<forall>h \<in> set (history (step now (ProCallback k cb) S)).
          res_id h = item_id (item (runs S ! k)) \<longrightarrow>
          status (pro h) = (case cb of OnComplete json \<Rightarrow> Completed | _ \<Rightarrow> Error))"
    if "phase (runs S ! k) = AwaitingPaths \<and> \<not> proSettled (runs S ! k) \<and> terminal cb"
  proof -
    have "proRes (runs S ! k) = JNull"
      using rk that by (simp add: run_ok_def)
    from pro_terminal_effect [OF assms(2) this, of cb now] that assms(2)
    show ?thesis by simp
  qed
  have fast_failed: "synthCalls (runs (step now (FlashCallback k cb) S) ! k) = synthCalls (runs S ! k) \<and>
       map consolidated (history (step now (FlashCallback k cb) S)) = map consolidated (history S)"
    if "\<not> truthy (flashRes (runs (step now (FlashCallback k cb) S) ! k)) \<or>
        \<not> truthy (proRes (runs (step now (FlashCallback k cb) S) ! k))"
  proof (cases "phase (runs S ! k) = AwaitingPaths \<and> \<not> flashSettled (runs S ! k)")
    case True
    then show ?thesis
      using flash_failed_keeps_consolidated [OF assms(2), of now cb] that assms(2) by simp
  next
    case False
    then have "step now (FlashCallback k cb) S = S" by auto
    then show ?thesis by simp
  qed
  have deep_failed: "synthCalls (runs (step now (ProCallback k cb) S) ! k) = synthCalls (runs S ! k) \<and>
       map consolidated (history (step now (ProCallback k cb) S)) = map consolidated (history S)"
    if "\<not> truthy (flashRes (runs (step now (ProCallback k cb) S) ! k)) \<or>
        \<not> truthy (proRes (runs (step now (ProCallback k cb) S) ! k))"
  proof (cases "phase (runs S ! k) = AwaitingPaths \<and> \<not> proSettled (runs S ! k)")
    case True
    then show ?thesis
      using pro_failed_keeps_consolidated [OF assms(2), of now cb] that assms(2) by simp
  next
    case False
    then have "step now (ProCallback k cb) S = S" by auto
    then show ?thesis by simp
  qed
  have synth: "phase (runs (step now (ConsolidateSettled k res) S) ! k) = Returned \<and>
       synthCalls (runs (step now (ConsolidateSettled k res) S) ! k) = 1 \<and>
       (\<forall>h \<in> set (history (step now (ConsolidateSettled k res) S)).
          res_id h = item_id (item (runs S ! k)) \<longrightarrow>
          (\<exists>c. consolidated h = Some c \<and>
               output c = (case res of Inr finalJson \<Rightarrow> finalJson | Inl err \<Rightarrow> JNull) \<and>
               status c = (case res of Inr finalJson \<Rightarrow> Completed | Inl err \<Rightarrow> Error)))"
    if "phase (runs S ! k) = AwaitingSynthesis"
  proof -
    have "synthCalls (runs S ! k) = 1"
      using rk that by (simp add: run_ok_def)
    with consolidate_settled_effect [OF assms(2), of now res] that assms(2)
    show ?thesis by simp
  qed
  show ?thesis
    using once waiting decided fast deep fast_failed deep_failed synth by blast
qed


text \<open>
  C1 fails on an input the code can receive. An item is drained in mode Both and each of
  its two remote calls streams the text \<^verbatim>\<open>null\<close>: \<^verbatim>\<open>JSON.parse\<close> returns
  \<^verbatim>\<open>null\<close> and each gateway function calls \<^verbatim>\<open>onComplete(null)\<close>. Both paths then
  have status \<^verbatim>\<open>completed\<close>, both promises have settled and the invocation has
  returned, yet \<^verbatim>\<open>consolidateResults\<close> was never called and the record has no
  consolidated entry: the test \<^verbatim>\<open>flashRes && proRes\<close> is on the truthiness of the
  parsed values, not on the paths having completed.
\<close>

theorem both_completed_without_consolidation:
  "fst (mergeWithFlash sample_runtime quiet_handlers null_stream) =
     [OnUpdate ''null'', OnComplete JNull] \<and>
   fst (mergeWithProStream sample_runtime quiet_handlers null_stream) =
     [OnUpdate ''null'', OnComplete JNull] \<and>
   length (runs (exec null_trace (initial [sample_item] Both))) = 1 \<and>
   mode (runs (exec null_trace (initial [sample_item] Both)) ! 0) = Both \<and>
   length (history (exec null_trace (initial [sample_item] Both))) = 1 \<and>
   status (flash (history (exec null_trace (initial [sample_item] Both)) ! 0)) = Completed \<and>
   status (pro (history (exec null_trace (initial [sample_item] Both)) ! 0)) = Completed \<and>
   flashSettled (runs (exec null_trace (initial [sample_item] Both)) ! 0) \<and>
   proSettled (runs (exec null_trace (initial [sample_item] Both)) ! 0) \<and>
   phase (runs (exec null_trace (initial [sample_item] Both)) ! 0) = Returned \<and>
   synthCalls (runs (exec null_trace (initial [sample_item] Both)) ! 0) = 0 \<and>
   consolidated (history (exec null_trace (initial [sample_item] Both)) ! 0) = None"
proof -
  have iid: "item_id sample_item = ''A1''"
    by (simp add: sample_item_def)
  have fast: "fst (mergeWithFlash sample_runtime quiet_handlers null_stream) =
     [OnUpdate ''null'', OnComplete JNull]"
    by (simp add: mergeWithFlash_def mergeStream_def getClient_def null_stream_def
        quiet_handlers_def sample_runtime_def cleaned_def)
  have deep: "fst (mergeWithProStream sample_runtime quiet_handlers null_stream) =
     [OnUpdate ''null'', OnComplete JNull]"
    by (simp add: mergeWithProStream_def mergeStream_def getClient_def null_stream_def
        quiet_handlers_def sample_runtime_def cleaned_def)
  have run: "length (runs (exec null_trace (initial [sample_item] Both))) = 1"
    "mode (runs (exec null_trace (initial [sample_item] Both)) ! 0) = Both"
    "flashSettled (runs (exec null_trace (initial [sample_item] Both)) ! 0)"
    "proSettled (runs (exec null_trace (initial [sample_item] Both)) ! 0)"
    "phase (runs (exec null_trace (initial [sample_item] Both)) ! 0) = Returned"
    "synthCalls (runs (exec null_trace (initial [sample_item] Both)) ! 0) = 0"
    by (simp_all add: null_trace_def model_defs iid)
  have rec: "length (history (exec null_trace (initial [sample_item] Both))) = 1"
    "status (flash (history (exec null_trace (initial [sample_item] Both)) ! 0)) = Completed"
    "status (pro (history (exec null_trace (initial [sample_item] Both)) ! 0)) = Completed"
    "consolidated (history (exec null_trace (initial [sample_item] Both)) ! 0) = None"
    by (simp_all add: null_trace_def model_defs iid)
  show ?thesis
    using fast deep run rec by simp
qed

end
